theory Spec2Isabelle
  imports Complex_Main "HOL-Library.Word"
begin

section \<open>JavaScript strings\<close>

text \<open>
  A JavaScript string is a sequence of UTF-16 code units. Every test the program makes on a
  code unit is a test on its numeric value, read with \<open>unat\<close>. String literals of the
  source are written \<open>js ''...''\<close>.
\<close>

type_synonym jschar = "16 word"
type_synonym jsstring = "jschar list"

definition ch :: "char \<Rightarrow> jschar" where
  "ch c = of_nat (of_char c)"

definition js :: "string \<Rightarrow> jsstring" where
  "js s = map ch s"

text \<open>
  \<open>String.prototype.trim\<close> removes, at both ends, the code units that ECMAScript calls
  WhiteSpace (TAB, VT, FF, SP, NBSP, ZWNBSP and the Unicode space separators) or
  LineTerminator (LF, CR, LS, PS).
\<close>

definition is_ws :: "jschar \<Rightarrow> bool" where
  "is_ws c = (unat c \<in> {0x09, 0x0A, 0x0B, 0x0C, 0x0D, 0x20, 0xA0, 0x1680,
                         0x2028, 0x2029, 0x202F, 0x205F, 0x3000, 0xFEFF}
              \<or> (0x2000 \<le> unat c \<and> unat c \<le> 0x200A))"

definition trim :: "jsstring \<Rightarrow> jsstring" where
  "trim s = rev (dropWhile is_ws (rev (dropWhile is_ws s)))"

text \<open>\<open>text.split('\n')\<close>: the pieces between line feeds; the empty string gives one empty piece.\<close>

fun split_nl :: "jsstring \<Rightarrow> jsstring list" where
  "split_nl [] = [[]]"
| "split_nl (c # cs) =
     (if unat c = 0x0A then [] # split_nl cs
      else (case split_nl cs of [] \<Rightarrow> [[c]] | l # ls \<Rightarrow> (c # l) # ls))"

text \<open>\<open>lines.join('\n')\<close>.\<close>

fun join_nl :: "jsstring list \<Rightarrow> jsstring" where
  "join_nl [] = []"
| "join_nl [l] = l"
| "join_nl (l # ls) = l @ [0x0A] @ join_nl ls"

text \<open>\<open>s.includes(t)\<close>: \<open>t\<close> occurs in \<open>s\<close> as a contiguous piece.\<close>

fun starts_with :: "jsstring \<Rightarrow> jsstring \<Rightarrow> bool" where
  "starts_with s [] = True"
| "starts_with [] (y # ys) = False"
| "starts_with (x # xs) (y # ys) = (x = y \<and> starts_with xs ys)"

fun str_includes :: "jsstring \<Rightarrow> jsstring \<Rightarrow> bool" where
  "str_includes [] t = (t = [])"
| "str_includes (x # xs) t = (starts_with (x # xs) t \<or> str_includes xs t)"

text \<open>A non-negative integer as a template literal \<open>${n}\<close> prints it: decimal, no leading zero.\<close>

definition digit_char :: "nat \<Rightarrow> jschar" where
  "digit_char d = of_nat (48 + d mod 10)"

function show_nat :: "nat \<Rightarrow> jsstring" where
  "show_nat n = (if n < 10 then [digit_char n] else show_nat (n div 10) @ [digit_char (n mod 10)])"
  by pat_completeness auto
termination
  by (relation "measure id") auto

declare show_nat.simps [simp del]

section \<open>Regular expressions\<close>

text \<open>
  The fragment of the regular expression syntax that \<open>PROXY_REGEX\<close> uses. A literal and a
  class \<open>[a-b]\<close> hold code-unit values. \<open>r{n}\<close> and \<open>r{0,n}\<close> are built by \<open>times\<close>
  and \<open>upto\<close>.
\<close>

datatype regex =
    Eps
  | Lit nat
  | Class nat nat
  | Seq regex regex
  | Alt regex regex
  | Opt regex

primrec times :: "nat \<Rightarrow> regex \<Rightarrow> regex" where
  "times 0 r = Eps"
| "times (Suc n) r = Seq r (times n r)"

primrec upto :: "nat \<Rightarrow> regex \<Rightarrow> regex" where
  "upto 0 r = Eps"
| "upto (Suc n) r = Opt (Seq r (upto n r))"

text \<open>
  The backtracking matcher: \<open>rmatch r s\<close> lists, in the order the engine tries them, the
  rests of \<open>s\<close> after each way of matching \<open>r\<close> at its start. A pattern between \<open>^\<close> and
  \<open>$\<close> (no flags) matches when one of these ways consumes the whole string.
\<close>

fun rmatch :: "regex \<Rightarrow> jsstring \<Rightarrow> jsstring list" where
  "rmatch Eps s = [s]"
| "rmatch (Lit c) s = (case s of [] \<Rightarrow> [] | x # xs \<Rightarrow> if unat x = c then [xs] else [])"
| "rmatch (Class lo hi) s =
     (case s of [] \<Rightarrow> [] | x # xs \<Rightarrow> if lo \<le> unat x \<and> unat x \<le> hi then [xs] else [])"
| "rmatch (Seq r1 r2) s = concat (map (rmatch r2) (rmatch r1 s))"
| "rmatch (Alt r1 r2) s = rmatch r1 s @ rmatch r2 s"
| "rmatch (Opt r) s = rmatch r s @ [s]"

definition regex_test :: "regex \<Rightarrow> jsstring \<Rightarrow> bool" where
  "regex_test r s = ([] \<in> set (rmatch r s))"

abbreviation lit :: "char \<Rightarrow> regex" where
  "lit x \<equiv> Lit (of_char x)"

abbreviation cls :: "char \<Rightarrow> char \<Rightarrow> regex" where
  "cls x y \<equiv> Class (of_char x) (of_char y)"

text \<open>\<open>(25[0-5]|2[0-4][0-9]|[01]?[0-9][0-9]?)\<close>\<close>

definition OCTET :: regex where
  "OCTET =
     Alt (Seq (lit CHR ''2'') (Seq (lit CHR ''5'') (cls CHR ''0'' CHR ''5'')))
    (Alt (Seq (lit CHR ''2'') (Seq (cls CHR ''0'' CHR ''4'') (cls CHR ''0'' CHR ''9'')))
         (Seq (Opt (cls CHR ''0'' CHR ''1''))
              (Seq (cls CHR ''0'' CHR ''9'') (Opt (cls CHR ''0'' CHR ''9'')))))"

text \<open>\<open>([1-9][0-9]{0,3}|[1-5][0-9]{4}|6[0-4][0-9]{3}|65[0-4][0-9]{2}|655[0-2][0-9]|6553[0-5])\<close>\<close>

definition PORT :: regex where
  "PORT =
     Alt (Seq (cls CHR ''1'' CHR ''9'') (upto 3 (cls CHR ''0'' CHR ''9'')))
    (Alt (Seq (cls CHR ''1'' CHR ''5'') (times 4 (cls CHR ''0'' CHR ''9'')))
    (Alt (Seq (lit CHR ''6'') (Seq (cls CHR ''0'' CHR ''4'') (times 3 (cls CHR ''0'' CHR ''9''))))
    (Alt (Seq (lit CHR ''6'') (Seq (lit CHR ''5'')
            (Seq (cls CHR ''0'' CHR ''4'') (times 2 (cls CHR ''0'' CHR ''9'')))))
    (Alt (Seq (lit CHR ''6'') (Seq (lit CHR ''5'') (Seq (lit CHR ''5'')
            (Seq (cls CHR ''0'' CHR ''2'') (cls CHR ''0'' CHR ''9'')))))
         (Seq (lit CHR ''6'') (Seq (lit CHR ''5'') (Seq (lit CHR ''5'')
            (Seq (lit CHR ''3'') (cls CHR ''0'' CHR ''5'')))))))))"

text \<open>
  \<open>/^((25[0-5]|2[0-4][0-9]|[01]?[0-9][0-9]?)\.){3}(25[0-5]|2[0-4][0-9]|[01]?[0-9][0-9]?):(...)$/\<close>,
  the same text in both source files.
\<close>

definition PROXY_REGEX :: regex where
  "PROXY_REGEX =
     Seq (times 3 (Seq OCTET (lit CHR ''.''))) (Seq OCTET (Seq (lit CHR '':'') PORT))"

definition PROXY_REGEX_idx :: regex where
  "PROXY_REGEX_idx =
     Seq (times 3 (Seq OCTET (lit CHR ''.''))) (Seq OCTET (Seq (lit CHR '':'') PORT))"

section \<open>Line Validator\<close>

record ValidationResult =
  isValid :: bool
  invalidLines :: "jsstring list"
  totalLines :: nat

text \<open>\<open>text.split('\n').map(l => l.trim()).filter(l => l.length > 0)\<close>\<close>

definition proxy_lines :: "jsstring \<Rightarrow> jsstring list" where
  "proxy_lines text = filter (\<lambda>l. length l > 0) (map trim (split_nl text))"

definition validateProxies :: "jsstring \<Rightarrow> ValidationResult" where
  "validateProxies text =
     (let lines = proxy_lines text in
      if length lines = 0 then \<lparr>isValid = True, invalidLines = [], totalLines = 0\<rparr>
      else
        let invalid = filter (\<lambda>line. \<not> regex_test PROXY_REGEX line) lines in
        \<lparr>isValid = (length invalid = 0), invalidLines = invalid, totalLines = length lines\<rparr>)"

text \<open>The validator of \<open>src/index.tsx\<close>: the same, without \<open>totalLines\<close>.\<close>

record ValidationResult_idx =
  isValid_idx :: bool
  invalidLines_idx :: "jsstring list"

definition validateProxies_idx :: "jsstring \<Rightarrow> ValidationResult_idx" where
  "validateProxies_idx text =
     (let lines = proxy_lines text in
      if length lines = 0 then \<lparr>isValid_idx = True, invalidLines_idx = []\<rparr>
      else
        let invalid = filter (\<lambda>line. \<not> regex_test PROXY_REGEX_idx line) lines in
        \<lparr>isValid_idx = (length invalid = 0), invalidLines_idx = invalid\<rparr>)"

section \<open>The pattern, as the specification words it\<close>

text \<open>The set of strings a regular expression denotes.\<close>

primrec lang :: "regex \<Rightarrow> jsstring set" where
  "lang Eps = {[]}"
| "lang (Lit c) = {[x] | x. unat x = c}"
| "lang (Class lo hi) = {[x] | x. lo \<le> unat x \<and> unat x \<le> hi}"
| "lang (Seq r1 r2) = {p @ q | p q. p \<in> lang r1 \<and> q \<in> lang r2}"
| "lang (Alt r1 r2) = lang r1 \<union> lang r2"
| "lang (Opt r) = insert [] (lang r)"

definition is_digit :: "jschar \<Rightarrow> bool" where
  "is_digit c = (48 \<le> unat c \<and> unat c \<le> 57)"

definition dec_val :: "jsstring \<Rightarrow> nat" where
  "dec_val s = foldl (\<lambda>a c. 10 * a + (unat c - 48)) 0 s"

definition is_octet :: "jsstring \<Rightarrow> bool" where
  "is_octet p = (1 \<le> length p \<and> length p \<le> 3 \<and> list_all is_digit p \<and> dec_val p \<le> 255)"

definition is_port :: "jsstring \<Rightarrow> bool" where
  "is_port p = (p \<noteq> [] \<and> list_all is_digit p \<and> unat (hd p) \<noteq> 48 \<and> 1 \<le> dec_val p \<and> dec_val p \<le> 65535)"

definition proxy_text :: "jsstring \<Rightarrow> jsstring \<Rightarrow> jsstring \<Rightarrow> jsstring \<Rightarrow> jsstring \<Rightarrow> jsstring" where
  "proxy_text a b c d p = a @ js ''.'' @ b @ js ''.'' @ c @ js ''.'' @ d @ js '':'' @ p"

definition spec_valid_line :: "jsstring \<Rightarrow> bool" where
  "spec_valid_line l =
     (\<exists>a b c d p. l = proxy_text a b c d p \<and>
        is_octet a \<and> is_octet b \<and> is_octet c \<and> is_octet d \<and> is_port p)"

section \<open>Bounded buffers\<close>

datatype LogType = Info | Success | Warning | Error | Packet

record LogEntry =
  timestamp :: jsstring
  message :: jsstring
  ltype :: LogType

record HistoryEntry =
  time :: jsstring
  views :: real

text \<open>\<open>xs.slice(-n)\<close>: the last \<open>n\<close> elements, all of them when there are fewer.\<close>

definition slice_last :: "nat \<Rightarrow> 'a list \<Rightarrow> 'a list" where
  "slice_last n xs = drop (length xs - n) xs"

text \<open>
  \<open>addLog\<close>: \<open>setLogs(prev => [...prev.slice(-99), entry])\<close>. The clock reading
  \<open>new Date().toLocaleTimeString()\<close> is the argument \<open>now\<close>.
\<close>

definition addLog :: "jsstring \<Rightarrow> jsstring \<Rightarrow> LogType \<Rightarrow> LogEntry list \<Rightarrow> LogEntry list" where
  "addLog now msg ty prev = slice_last 99 prev @ [\<lparr>timestamp = now, message = msg, ltype = ty\<rparr>]"

definition clearLogs :: "LogEntry list \<Rightarrow> LogEntry list" where
  "clearLogs prev = []"

text \<open>
  The three writers of the history: the simulator's tick
  \<open>setViewHistory(history => [...history, { time: now, views: newVal }].slice(-25))\<close>, the seed at
  the start of a run, and the RESET DATA button.
\<close>

definition history_tick :: "jsstring \<Rightarrow> real \<Rightarrow> HistoryEntry list \<Rightarrow> HistoryEntry list" where
  "history_tick now newVal history = slice_last 25 (history @ [\<lparr>time = now, views = newVal\<rparr>])"

definition history_seed :: "jsstring \<Rightarrow> real \<Rightarrow> HistoryEntry list" where
  "history_seed now videoViews = [\<lparr>time = now, views = videoViews\<rparr>]"

datatype log_op = Add jsstring jsstring LogType | ClearLogs

datatype history_op = Tick jsstring real | Seed jsstring real | ResetData

fun log_step :: "LogEntry list \<Rightarrow> log_op \<Rightarrow> LogEntry list" where
  "log_step l (Add now msg ty) = addLog now msg ty l"
| "log_step l ClearLogs = clearLogs l"

fun history_step :: "HistoryEntry list \<Rightarrow> history_op \<Rightarrow> HistoryEntry list" where
  "history_step h (Tick now v) = history_tick now v h"
| "history_step h (Seed now v) = history_seed now v"
| "history_step h ResetData = []"

text \<open>Both buffers start empty (\<open>useState([])\<close>); a reachable buffer is the result of some operations.\<close>

definition logs_after :: "log_op list \<Rightarrow> LogEntry list" where
  "logs_after ops = foldl log_step [] ops"

definition history_after :: "history_op list \<Rightarrow> HistoryEntry list" where
  "history_after ops = foldl history_step [] ops"

section \<open>Metrics Simulator\<close>

text \<open>
  A JavaScript number is an IEEE 754 double. The finite doubles are taken as the reals they
  denote, and an arithmetic operation is the exact operation followed by rounding to the nearest
  double, ties to the even mantissa. \<open>binade x\<close> is the exponent of the binade of \<open>x\<close>, kept
  at -1022 below the normal range, where doubles keep the spacing of the lowest binade; a
  double has 53 bits of mantissa, so the doubles of binade \<open>e\<close> are the multiples of
  \<open>2 ^ (e - 52)\<close>. Overflow to infinity is left out: no number here comes near it.
\<close>

definition round_even :: "real \<Rightarrow> int" where
  "round_even x =
     (let f = \<lfloor>x\<rfloor>; d = x - of_int f in
      if d < 1/2 then f else if 1/2 < d then f + 1 else if even f then f else f + 1)"

definition binade :: "real \<Rightarrow> int" where
  "binade x = max \<lfloor>log 2 \<bar>x\<bar>\<rfloor> (-1022)"

definition to_double :: "real \<Rightarrow> real" where
  "to_double x = of_int (round_even (x / 2 powi (binade x - 52))) * 2 powi (binade x - 52)"

definition js_mul :: "real \<Rightarrow> real \<Rightarrow> real" where
  "js_mul a b = to_double (a * b)"

definition js_add :: "real \<Rightarrow> real \<Rightarrow> real" where
  "js_add a b = to_double (a + b)"

definition js_div :: "real \<Rightarrow> real \<Rightarrow> real" where
  "js_div a b = to_double (a / b)"

text \<open>
  One tick: \<open>Math.floor(videoViews * (incrementPercentage / 100) * (Math.random() * 0.4 + 0.8))\<close>
  added to the running total \<open>prev\<close>. \<open>random\<close> is the value \<open>Math.random()\<close> returned; the
  literals \<open>0.4\<close> and \<open>0.8\<close> denote the doubles nearest to them.
\<close>

definition tick_delta :: "real \<Rightarrow> real \<Rightarrow> real \<Rightarrow> real" where
  "tick_delta videoViews incrementPercentage random =
     of_int \<lfloor>js_mul (js_mul videoViews (js_div incrementPercentage 100))
                   (js_add (js_mul random (to_double (4/10))) (to_double (8/10)))\<rfloor>"

definition tick_views :: "real \<Rightarrow> real \<Rightarrow> real \<Rightarrow> real \<Rightarrow> real" where
  "tick_views videoViews incrementPercentage random prev =
     js_add prev (tick_delta videoViews incrementPercentage random)"

section \<open>Retry-Fetch Unit\<close>

datatype SyncState = idle | syncing | retrying | success | error | cancelled

datatype side = SideA | SideB

text \<open>A thrown value: an \<open>Error\<close> object with its \<open>name\<close> and \<open>message\<close>.\<close>

record js_error =
  err_name :: jsstring
  err_message :: jsstring

text \<open>
  What one attempt's \<open>await fetch(...)\<close> and \<open>await response.text()\<close> come to: the body of
  an ok response, a response whose \<open>ok\<close> is false (status and status text), or a rejection
  (of \<open>fetch\<close> or of \<open>text()\<close>). Nothing is written between the two awaits, so they are
  one suspension. The URL is taken to be well-formed UTF-16, so that \<open>encodeURIComponent\<close>
  does not throw and every pass through the \<open>try\<close> block reaches \<open>fetch\<close>.
\<close>

datatype fetch_outcome =
    Fulfilled jsstring
  | NotOk nat jsstring
  | Rejected js_error

text \<open>
  What a unit does to the outside: state setters, log entries, and the calls it awaits.
  \<open>CallFetch u\<close> is the call of \<open>fetch\<close> on the relay address built from the source URL \<open>u\<close>.
\<close>

datatype effect =
    SetStatus SyncState
  | SetRetries nat
  | AddLog jsstring LogType
  | CallFetch jsstring
  | CallWait nat

text \<open>
  Where a unit stands: suspended in the fetch of attempt \<open>n\<close>, suspended in the backoff after
  attempt \<open>n\<close>, or settled (its promise fulfilled with content or null, or rejected).
\<close>

datatype ustate =
    Fetching nat
  | Waiting nat
  | Returned "jsstring option"
  | Threw js_error

definition abortErr :: js_error where
  "abortErr = \<lparr>err_name = js ''AbortError'', err_message = js ''AbortError''\<rparr>"

definition side_name :: "side \<Rightarrow> jsstring" where
  "side_name sd = (case sd of SideA \<Rightarrow> js ''A'' | SideB \<Rightarrow> js ''B'')"

text \<open>\<open>err.name === 'AbortError' || err.message === 'AbortError'\<close>\<close>

definition is_abort :: "js_error \<Rightarrow> bool" where
  "is_abort err = (err_name err = js ''AbortError'' \<or> err_message err = js ''AbortError'')"

text \<open>
  The head of the loop body for index \<open>attempt\<close>, up to the await of \<open>fetch\<close>;
  \<open>aborted\<close> is \<open>signal.aborted\<close> at that moment.
\<close>

definition loop_head :: "jsstring \<Rightarrow> nat \<Rightarrow> bool \<Rightarrow> nat \<Rightarrow> ustate \<times> effect list" where
  "loop_head url maxRetries aborted attempt =
     (if attempt \<le> maxRetries then
        (if aborted then (Threw abortErr, [])
         else (Fetching attempt,
               [SetStatus (if attempt = 0 then syncing else retrying), CallFetch url]))
      else (Returned None, []))"

definition failure_message :: "side \<Rightarrow> nat \<Rightarrow> nat \<Rightarrow> js_error \<Rightarrow> jsstring" where
  "failure_message sd maxRetries attempt err =
     js ''Cluster '' @ side_name sd @ js '' attempt '' @ show_nat (attempt + 1) @ js ''/''
       @ show_nat (maxRetries + 1) @ js '' failed: ''
       @ (if str_includes (err_message err) (js ''HTTP_'') then js ''Server returned '' @ err_message err
          else if err_name err = js ''TypeError''
            then js ''Network error or CORS policy restriction detected.''
          else if err_message err \<noteq> [] then err_message err
          else js ''Unknown connectivity issue.'')"

definition terminal_message :: "side \<Rightarrow> nat \<Rightarrow> jsstring" where
  "terminal_message sd maxRetries =
     js ''Cluster '' @ side_name sd @ js '' terminal failure: Unable to establish link after ''
       @ show_nat (maxRetries + 1) @ js '' attempts.''"

text \<open>The \<open>catch\<close> block of attempt \<open>attempt\<close>, up to the await of \<open>wait\<close>.\<close>

definition on_catch :: "side \<Rightarrow> nat \<Rightarrow> nat \<Rightarrow> js_error \<Rightarrow> ustate \<times> effect list" where
  "on_catch sd maxRetries attempt err =
     (if is_abort err then (Threw err, [])
      else if attempt = maxRetries then
        (Returned None,
         [AddLog (failure_message sd maxRetries attempt err) Warning,
          SetStatus error,
          AddLog (terminal_message sd maxRetries) Error])
      else
        (Waiting attempt,
         [AddLog (failure_message sd maxRetries attempt err) Warning,
          CallWait (1500 * 2 ^ attempt)]))"

text \<open>The rest of the \<open>try\<close> block once the fetch has settled.\<close>

definition on_fetch :: "side \<Rightarrow> nat \<Rightarrow> nat \<Rightarrow> fetch_outcome \<Rightarrow> ustate \<times> effect list" where
  "on_fetch sd maxRetries attempt outcome =
     (case outcome of
        Fulfilled content \<Rightarrow> (Returned (Some content), [SetStatus success])
      | NotOk status statusText \<Rightarrow>
          on_catch sd maxRetries attempt
            \<lparr>err_name = js ''Error'',
             err_message = js ''HTTP_'' @ show_nat status @ js '' :: '' @ statusText\<rparr>
      | Rejected err \<Rightarrow> on_catch sd maxRetries attempt err)"

text \<open>\<open>if (!url) return null;\<close> and the first pass through the loop head.\<close>

definition fetchWithRetry_start :: "jsstring \<Rightarrow> nat \<Rightarrow> bool \<Rightarrow> ustate \<times> effect list" where
  "fetchWithRetry_start url maxRetries aborted =
     (if url = [] then (Returned None, []) else loop_head url maxRetries aborted 0)"

text \<open>
  What resumes a suspended unit: its fetch settles, or its timer fires. After the timer the loop
  increments \<open>attempt\<close> and passes through the head again. An input the unit is not waiting
  for leaves it as it is.
\<close>

datatype unit_input = Settles fetch_outcome | Fires

definition unit_resume ::
  "side \<Rightarrow> jsstring \<Rightarrow> nat \<Rightarrow> bool \<Rightarrow> ustate \<Rightarrow> unit_input \<Rightarrow> ustate \<times> effect list" where
  "unit_resume sd url maxRetries aborted st inp =
     (case (st, inp) of
        (Fetching n, Settles outcome) \<Rightarrow> on_fetch sd maxRetries n outcome
      | (Waiting n, Fires) \<Rightarrow> loop_head url maxRetries aborted (n + 1)
      | _ \<Rightarrow> (st, []))"



text \<open>An attempt fails: a response that is not ok, or a rejection that is not an abort.\<close>

fun fetch_fails :: "fetch_outcome \<Rightarrow> bool" where
  "fetch_fails (Fulfilled content) = False"
| "fetch_fails (NotOk status statusText) = True"
| "fetch_fails (Rejected err) = (\<not> is_abort err)"

text \<open>The error the \<open>catch\<close> block sees for a failed attempt.\<close>

fun caught :: "fetch_outcome \<Rightarrow> js_error" where
  "caught (Rejected err) = err"
| "caught (NotOk status statusText) =
     \<lparr>err_name = js ''Error'', err_message = js ''HTTP_'' @ show_nat status @ js '' :: '' @ statusText\<rparr>"
| "caught (Fulfilled content) = \<lparr>err_name = [], err_message = []\<rparr>"



fun is_CallWait :: "effect \<Rightarrow> bool" where
  "is_CallWait (CallWait ms) = True"
| "is_CallWait e = False"



text \<open>
  What a unit is expected to do from the fetch of attempt \<open>n\<close> on when that fetch and all
  later ones fail with the given outcomes: a warning and a backoff for each attempt but the last,
  then a warning, the error status and the terminal error.
\<close>

fun fail_trace :: "side \<Rightarrow> jsstring \<Rightarrow> nat \<Rightarrow> nat \<Rightarrow> fetch_outcome list \<Rightarrow> effect list" where
  "fail_trace sd url m n [] = []"
| "fail_trace sd url m n [oc] =
     [AddLog (failure_message sd m n (caught oc)) Warning, SetStatus error,
      AddLog (terminal_message sd m) Error]"
| "fail_trace sd url m n (oc # ocs) =
     [AddLog (failure_message sd m n (caught oc)) Warning, CallWait (1500 * 2 ^ n),
      SetStatus retrying, CallFetch url] @ fail_trace sd url m (Suc n) ocs"


subsection \<open>The unit of \<open>src/index.tsx\<close>\<close>

definition loop_head_idx :: "jsstring \<Rightarrow> nat \<Rightarrow> bool \<Rightarrow> nat \<Rightarrow> ustate \<times> effect list" where
  "loop_head_idx url maxRetries aborted attempt =
     (if attempt \<le> maxRetries then
        (if aborted then (Threw \<lparr>err_name = js ''Error'', err_message = js ''AbortError''\<rparr>, [])
         else (Fetching attempt,
               [SetStatus (if attempt = 0 then syncing else retrying), SetRetries attempt,
                CallFetch url]))
      else (Returned None, []))"

definition on_catch_idx :: "side \<Rightarrow> nat \<Rightarrow> nat \<Rightarrow> js_error \<Rightarrow> ustate \<times> effect list" where
  "on_catch_idx sd maxRetries attempt err =
     (if err_name err = js ''AbortError'' then (Threw err, [])
      else if attempt = maxRetries then
        (Returned None,
         [SetStatus error,
          AddLog (js ''Cluster '' @ side_name sd @ js '' connection timeout after ''
                    @ show_nat maxRetries @ js '' attempts.'') Error])
      else (Waiting attempt, [CallWait (1000 * 2 ^ attempt)]))"

definition on_fetch_idx :: "side \<Rightarrow> nat \<Rightarrow> nat \<Rightarrow> fetch_outcome \<Rightarrow> ustate \<times> effect list" where
  "on_fetch_idx sd maxRetries attempt outcome =
     (case outcome of
        Fulfilled content \<Rightarrow> (Returned (Some content), [SetStatus success])
      | NotOk status statusText \<Rightarrow>
          on_catch_idx sd maxRetries attempt
            \<lparr>err_name = js ''Error'', err_message = js ''HTTP '' @ show_nat status\<rparr>
      | Rejected err \<Rightarrow> on_catch_idx sd maxRetries attempt err)"

section \<open>Dual-Source Sync Coordinator\<close>

text \<open>The component state the synchronize operation reads and writes.\<close>

record app_state =
  statusA :: SyncState
  statusB :: SyncState
  proxiesLeft :: jsstring
  proxiesRight :: jsstring
  logs :: "LogEntry list"

text \<open>
  One invocation of \<open>handleSyncFromUrls\<close> in flight: the component state, the two URLs the
  closure captured, where each unit stands, \<open>signal.aborted\<close>, whether
  \<open>abortControllerRef.current\<close> is set, whether the function is still suspended at
  \<open>await Promise.all\<close>, and the calls to \<open>fetch\<close> and \<open>wait\<close> made so far.
\<close>

record session =
  app :: app_state
  urlA :: jsstring
  urlB :: jsstring
  unitA :: ustate
  unitB :: ustate
  aborted :: bool
  controller :: bool
  awaiting :: bool
  calls :: "(side \<times> effect) list"

definition unit_of :: "side \<Rightarrow> session \<Rightarrow> ustate" where
  "unit_of sd s = (case sd of SideA \<Rightarrow> unitA s | SideB \<Rightarrow> unitB s)"

definition url_of :: "side \<Rightarrow> session \<Rightarrow> jsstring" where
  "url_of sd s = (case sd of SideA \<Rightarrow> urlA s | SideB \<Rightarrow> urlB s)"

definition set_unit :: "side \<Rightarrow> ustate \<Rightarrow> session \<Rightarrow> session" where
  "set_unit sd st s = (case sd of SideA \<Rightarrow> s\<lparr>unitA := st\<rparr> | SideB \<Rightarrow> s\<lparr>unitB := st\<rparr>)"

text \<open>
  A unit's effect on the session. \<open>setStatus\<close> is \<open>setStatusA\<close> or \<open>setStatusB\<close> by
  side. The retry counters \<open>retriesA\<close>, \<open>retriesB\<close> are written by no unit of the canonical
  file and are left out.
\<close>

fun apply_effect :: "jsstring \<Rightarrow> side \<Rightarrow> session \<Rightarrow> effect \<Rightarrow> session" where
  "apply_effect now SideA s (SetStatus st) = s\<lparr>app := (app s)\<lparr>statusA := st\<rparr>\<rparr>"
| "apply_effect now SideB s (SetStatus st) = s\<lparr>app := (app s)\<lparr>statusB := st\<rparr>\<rparr>"
| "apply_effect now sd s (SetRetries n) = s"
| "apply_effect now sd s (AddLog msg ty) = s\<lparr>app := (app s)\<lparr>logs := addLog now msg ty (logs (app s))\<rparr>\<rparr>"
| "apply_effect now sd s (CallFetch u) = s\<lparr>calls := calls s @ [(sd, CallFetch u)]\<rparr>"
| "apply_effect now sd s (CallWait ms) = s\<lparr>calls := calls s @ [(sd, CallWait ms)]\<rparr>"

definition apply_effects :: "jsstring \<Rightarrow> side \<Rightarrow> session \<Rightarrow> effect list \<Rightarrow> session" where
  "apply_effects now sd s es = foldl (apply_effect now sd) s es"

text \<open>The body of \<open>results.forEach((content, i) => ...)\<close>; \<open>if (content)\<close> is false for null and for the empty string.\<close>

definition aggregate :: "jsstring \<Rightarrow> nat \<Rightarrow> jsstring option \<Rightarrow> app_state \<Rightarrow> app_state" where
  "aggregate now i content a =
     (case content of
        None \<Rightarrow> a
      | Some text \<Rightarrow>
          if text = [] then a
          else
            let sd = (if i = 0 then SideA else SideB);
                allLines = proxy_lines text;
                validProxies = filter (\<lambda>l. regex_test PROXY_REGEX l) allLines;
                a1 = (if i = 0 then a\<lparr>proxiesLeft := join_nl validProxies\<rparr>
                      else a\<lparr>proxiesRight := join_nl validProxies\<rparr>)
            in if length validProxies = 0 \<and> length allLines > 0 then
                 a1\<lparr>logs := addLog now
                   (js ''Cluster '' @ side_name sd @ js '' fetch successful, but 0 valid proxy patterns found in ''
                      @ show_nat (length allLines) @ js '' lines.'') Warning (logs a1)\<rparr>
               else
                 a1\<lparr>logs := addLog now
                   (js ''Cluster '' @ side_name sd @ js '' synchronization complete. Loaded ''
                      @ show_nat (length validProxies) @ js ''/'' @ show_nat (length allLines)
                      @ js '' valid nodes.'') Success (logs a1)\<rparr>)"

definition cancel_message :: jsstring where
  "cancel_message = js ''Synchronization sequence manually terminated by operator.''"

text \<open>\<open>prev => (prev === 'syncing' || prev === 'retrying') ? 'idle' : prev\<close>\<close>

definition reset_pending :: "SyncState \<Rightarrow> SyncState" where
  "reset_pending prev = (if prev = syncing \<or> prev = retrying then idle else prev)"

text \<open>The \<open>finally\<close> block; the function is over.\<close>

definition finish :: "session \<Rightarrow> session" where
  "finish s = s\<lparr>controller := False, awaiting := False\<rparr>"

text \<open>\<open>Promise.all\<close> fulfilled with both results: the \<open>forEach\<close>, side A then side B.\<close>

definition on_all_fulfilled :: "jsstring \<Rightarrow> jsstring option \<Rightarrow> jsstring option \<Rightarrow> session \<Rightarrow> session" where
  "on_all_fulfilled now cA cB s = finish (s\<lparr>app := aggregate now 1 cB (aggregate now 0 cA (app s))\<rparr>)"

text \<open>\<open>Promise.all\<close> rejected: the \<open>catch\<close> block.\<close>

definition on_rejected :: "jsstring \<Rightarrow> js_error \<Rightarrow> session \<Rightarrow> session" where
  "on_rejected now err s =
     finish
       (if is_abort err then
          s\<lparr>app := (app s)\<lparr>logs := addLog now cancel_message Warning (logs (app s)),
                            statusA := reset_pending (statusA (app s)),
                            statusB := reset_pending (statusB (app s))\<rparr>\<rparr>
        else
          s\<lparr>app := (app s)\<lparr>logs := addLog now
                 (js ''Sync operation aborted unexpectedly: '' @ err_message err) Error
                 (logs (app s))\<rparr>\<rparr>)"

text \<open>
  What \<open>await Promise.all([...])\<close> does once the unit of side \<open>sd\<close> has moved: it rejects
  with the first rejection, it fulfils when both units have returned, otherwise it stays
  pending. Once the function is over, a unit that is still running has nobody waiting for it.
\<close>

definition coordinate :: "jsstring \<Rightarrow> side \<Rightarrow> session \<Rightarrow> session" where
  "coordinate now sd s =
     (if \<not> awaiting s then s
      else
        (case unit_of sd s of
           Threw err \<Rightarrow> on_rejected now err s
         | Returned r \<Rightarrow>
             (case (unitA s, unitB s) of
                (Returned cA, Returned cB) \<Rightarrow> on_all_fulfilled now cA cB s
              | _ \<Rightarrow> s)
         | _ \<Rightarrow> s))"

text \<open>The unit of side \<open>sd\<close> is resumed; both calls pass no \<open>maxRetries\<close>, so it is 3.\<close>

definition resume :: "jsstring \<Rightarrow> side \<Rightarrow> unit_input \<Rightarrow> session \<Rightarrow> session" where
  "resume now sd inp s =
     (case unit_resume sd (url_of sd s) 3 (aborted s) (unit_of sd s) inp of
        (st', es) \<Rightarrow> coordinate now sd (apply_effects now sd (set_unit sd st' s) es))"

text \<open>
  \<open>fetch(proxyUrl, { signal })\<close>: when the signal is aborted, a fetch in flight (or the read of its
  body) rejects with a \<open>DOMException\<close> named \<open>AbortError\<close>.
\<close>

definition fetch_abort :: js_error where
  "fetch_abort = \<lparr>err_name = js ''AbortError'', err_message = js ''signal is aborted without reason''\<rparr>"

definition abort_fetch :: "jsstring \<Rightarrow> side \<Rightarrow> session \<Rightarrow> session" where
  "abort_fetch now sd s =
     (case unit_of sd s of
        Fetching n \<Rightarrow> resume now sd (Settles (Rejected fetch_abort)) s
      | _ \<Rightarrow> s)"

text \<open>\<open>handleCancelSync\<close>: \<open>if (abortControllerRef.current) abortControllerRef.current.abort()\<close>.\<close>

definition handleCancelSync :: "jsstring \<Rightarrow> session \<Rightarrow> session" where
  "handleCancelSync now s =
     (if controller s then abort_fetch now SideB (abort_fetch now SideA (s\<lparr>aborted := True\<rparr>))
      else s)"

definition isSyncing :: "app_state \<Rightarrow> bool" where
  "isSyncing a = (statusA a = syncing \<or> statusB a = syncing \<or> statusA a = retrying \<or> statusB a = retrying)"

text \<open>
  \<open>handleSyncFromUrls\<close> up to \<open>await Promise.all\<close>: it returns at once (\<open>Inl\<close>, with the
  component state it leaves), or a session is in flight (\<open>Inr\<close>), both units started, side A
  first.
\<close>

definition handleSyncFromUrls :: "jsstring \<Rightarrow> jsstring \<Rightarrow> jsstring \<Rightarrow> app_state \<Rightarrow> app_state + session" where
  "handleSyncFromUrls now uA uB a =
     (if isSyncing a then Inl a
      else if uA = [] \<and> uB = [] then
        Inl (a\<lparr>logs := addLog now (js ''Sync error: No cluster endpoints defined in configuration.'')
                          Error (logs a)\<rparr>)
      else
        (case (fetchWithRetry_start uA 3 False, fetchWithRetry_start uB 3 False) of
           ((stA, esA), (stB, esB)) \<Rightarrow>
             Inr (apply_effects now SideB
                   (apply_effects now SideA
                      \<lparr>app = a\<lparr>logs := addLog now
                                 (js ''Initiating Multi-Cluster Synchronize sequence...'') Info (logs a)\<rparr>,
                       urlA = uA, urlB = uB, unitA = stA, unitB = stB,
                       aborted = False, controller = True, awaiting = True, calls = []\<rparr>
                      esA)
                   esB)))"

text \<open>
  What happens to a session in flight: a fetch settles, a backoff timer fires, or the operator
  clicks cancel. An event nobody is waiting for changes nothing.
\<close>

datatype event = FetchSettles side fetch_outcome | TimerFires side | CancelClick

fun step :: "jsstring \<Rightarrow> session \<Rightarrow> event \<Rightarrow> session" where
  "step now s (FetchSettles sd oc) =
     (case unit_of sd s of Fetching n \<Rightarrow> resume now sd (Settles oc) s | _ \<Rightarrow> s)"
| "step now s (TimerFires sd) =
     (case unit_of sd s of Waiting n \<Rightarrow> resume now sd Fires s | _ \<Rightarrow> s)"
| "step now s CancelClick = handleCancelSync now s"

text \<open>A schedule: the events in the order the event loop delivers them, each with the clock reading.\<close>

definition run :: "(jsstring \<times> event) list \<Rightarrow> session \<Rightarrow> session" where
  "run evs s = foldl (\<lambda>s (now, ev). step now s ev) s evs"

text \<open>The events of a side whose fetches fail one after the other, each backoff waited out.\<close>

definition retry_events :: "side \<Rightarrow> (jsstring \<times> fetch_outcome \<times> jsstring) list \<Rightarrow> (jsstring \<times> event) list" where
  "retry_events sd fails =
     concat (map (\<lambda>(t, oc, t'). [(t, FetchSettles sd oc), (t', TimerFires sd)]) fails)"

text \<open>A log after a list of entries has been added in order.\<close>

definition add_all :: "LogEntry list \<Rightarrow> LogEntry list \<Rightarrow> LogEntry list" where
  "add_all entries l = foldl (\<lambda>l e. addLog (timestamp e) (message e) (ltype e) l) l entries"

fun is_Fetching :: "ustate \<Rightarrow> bool" where
  "is_Fetching (Fetching n) = True"
| "is_Fetching u = False"

fun is_Waiting :: "ustate \<Rightarrow> bool" where
  "is_Waiting (Waiting n) = True"
| "is_Waiting u = False"

fun is_Threw :: "ustate \<Rightarrow> bool" where
  "is_Threw (Threw e) = True"
| "is_Threw u = False"

text \<open>
  What holds of a session in flight: the attempt indices stay within the retry budget, and while
  the function is suspended the controller is set, no unit has thrown and one is still running.
\<close>

fun unit_ok :: "ustate \<Rightarrow> bool" where
  "unit_ok (Fetching n) = (n \<le> 3)"
| "unit_ok (Waiting n) = (n < 3)"
| "unit_ok u = True"

definition session_inv :: "session \<Rightarrow> bool" where
  "session_inv s =
     (unit_ok (unitA s) \<and> unit_ok (unitB s) \<and>
      (if awaiting s then
         controller s \<and> \<not> is_Threw (unitA s) \<and> \<not> is_Threw (unitB s) \<and>
         (is_Fetching (unitA s) \<or> is_Waiting (unitA s) \<or> is_Fetching (unitB s) \<or> is_Waiting (unitB s)) \<and>
         (aborted s \<longrightarrow> \<not> is_Fetching (unitA s) \<and> \<not> is_Fetching (unitB s))
       else \<not> controller s))"

text \<open>The component state once the \<open>catch\<close> block has handled a cancellation at time \<open>t\<close>.\<close>

definition cancelled_app :: "jsstring \<Rightarrow> app_state \<Rightarrow> app_state" where
  "cancelled_app t a =
     a\<lparr>logs := addLog t cancel_message Warning (logs a),
       statusA := reset_pending (statusA a),
       statusB := reset_pending (statusB a)\<rparr>"

text \<open>A session whose function is over after a cancellation, with component state \<open>a\<close>.\<close>

definition after_cancel_done :: "app_state \<Rightarrow> session \<Rightarrow> bool" where
  "after_cancel_done a s =
     (\<not> awaiting s \<and> \<not> controller s \<and> aborted s \<and>
      \<not> is_Fetching (unitA s) \<and> \<not> is_Fetching (unitB s) \<and>
      unit_ok (unitA s) \<and> unit_ok (unitB s) \<and> app s = a)"

fun other :: "side \<Rightarrow> side" where
  "other SideA = SideB"
| "other SideB = SideA"

fun is_Returned :: "ustate \<Rightarrow> bool" where
  "is_Returned (Returned r) = True"
| "is_Returned u = False"

text \<open>
  From \<open>s\<close> to \<open>s'\<close> only side A has moved, without settling: side B, the flags and both proxy
  lists are as they were, the new log entries are warnings, the new calls are side A's.
\<close>

definition side_a_progress :: "session \<Rightarrow> session \<Rightarrow> bool" where
  "side_a_progress s s' =
     (unitB s' = unitB s \<and> awaiting s' = awaiting s \<and> aborted s' = aborted s \<and>
      controller s' = controller s \<and> urlA s' = urlA s \<and> urlB s' = urlB s \<and>
      statusB (app s') = statusB (app s) \<and>
      proxiesLeft (app s') = proxiesLeft (app s) \<and> proxiesRight (app s') = proxiesRight (app s) \<and>
      (\<exists>entries. logs (app s') = add_all entries (logs (app s)) \<and> (\<forall>e\<in>set entries. ltype e = Warning)) \<and>
      (\<exists>cs. calls s' = calls s @ cs \<and> (\<forall>c\<in>set cs. fst c = SideA)))"

text \<open>An idle console, and the session that a synchronize of the one URL \<open>u\<close> for side A starts from it.\<close>

definition idle_app :: app_state where
  "idle_app = \<lparr>statusA = idle, statusB = idle, proxiesLeft = [], proxiesRight = [], logs = []\<rparr>"

definition started_session :: session where
  "started_session =
     \<lparr>app = \<lparr>statusA = syncing, statusB = idle, proxiesLeft = [], proxiesRight = [],
             logs = [\<lparr>timestamp = [],
                      message = js ''Initiating Multi-Cluster Synchronize sequence...'',
                      ltype = Info\<rparr>]\<rparr>,
      urlA = js ''u'', urlB = [], unitA = Fetching 0, unitB = Returned None,
      aborted = False, controller = True, awaiting = True,
      calls = [(SideA, CallFetch (js ''u''))]\<rparr>"

section \<open>The pattern and the validator\<close>

lemma rmatch_lang: "set (rmatch r s) = {t. \<exists>p \<in> lang r. s = p @ t}"
proof (induction r arbitrary: s)
  case Eps show ?case by simp
next
  case (Lit c) show ?case by (cases s) auto
next
  case (Class lo hi) show ?case by (cases s) auto
next
  case (Seq r1 r2)
  show ?case
    apply (simp add: Seq)
    apply (rule set_eqI)
    apply simp
    apply (rule iffI)
     apply (metis append.assoc)
    apply (metis append.assoc)
    done
next
  case (Alt r1 r2) show ?case by (auto simp: Alt)
next
  case (Opt r) show ?case by (auto simp: Opt)
qed

lemma regex_test_lang: "regex_test r s \<longleftrightarrow> s \<in> lang r"
  by (simp add: regex_test_def rmatch_lang)

lemma octet_sub: "p \<in> lang OCTET \<Longrightarrow> is_octet p"
  unfolding OCTET_def is_octet_def
  by (auto simp: is_digit_def dec_val_def)

lemma in_Seq_Lit [simp]:
  "(s \<in> lang (Seq (Lit k) r)) = (\<exists>x q. s = x # q \<and> unat x = k \<and> q \<in> lang r)"
proof
  assume "s \<in> lang (Seq (Lit k) r)"
  then obtain p q where "s = p @ q" "p \<in> lang (Lit k)" "q \<in> lang r" by auto
  then show "\<exists>x q. s = x # q \<and> unat x = k \<and> q \<in> lang r" by auto
next
  assume "\<exists>x q. s = x # q \<and> unat x = k \<and> q \<in> lang r"
  then obtain x q where h: "s = [x] @ q" "[x] \<in> lang (Lit k)" "q \<in> lang r" by auto
  then show "s \<in> lang (Seq (Lit k) r)" unfolding lang.simps by blast
qed

lemma in_Seq_Class [simp]:
  "(s \<in> lang (Seq (Class lo hi) r)) = (\<exists>x q. s = x # q \<and> lo \<le> unat x \<and> unat x \<le> hi \<and> q \<in> lang r)"
proof
  assume "s \<in> lang (Seq (Class lo hi) r)"
  then obtain p q where "s = p @ q" "p \<in> lang (Class lo hi)" "q \<in> lang r" by auto
  then show "\<exists>x q. s = x # q \<and> lo \<le> unat x \<and> unat x \<le> hi \<and> q \<in> lang r" by auto
next
  assume "\<exists>x q. s = x # q \<and> lo \<le> unat x \<and> unat x \<le> hi \<and> q \<in> lang r"
  then obtain x q where h: "s = [x] @ q" "[x] \<in> lang (Class lo hi)" "q \<in> lang r" by auto
  then show "s \<in> lang (Seq (Class lo hi) r)" unfolding lang.simps by blast
qed

lemma in_Class [simp]:
  "(s \<in> lang (Class lo hi)) = (\<exists>x. s = [x] \<and> lo \<le> unat x \<and> unat x \<le> hi)"
  by auto

lemma in_Lit [simp]:
  "(s \<in> lang (Lit k)) = (\<exists>x. s = [x] \<and> unat x = k)"
  by auto

lemma in_Seq_Opt [simp]:
  "(s \<in> lang (Seq (Opt a) r)) = (s \<in> lang r \<or> s \<in> lang (Seq a r))"
  by auto

lemma in_Seq_Eps [simp]: "(s \<in> lang (Seq Eps r)) = (s \<in> lang r)"
  by auto

lemma in_Opt [simp]: "(s \<in> lang (Opt r)) = (s = [] \<or> s \<in> lang r)"
  by auto

lemma in_Alt [simp]: "(s \<in> lang (Alt a b)) = (s \<in> lang a \<or> s \<in> lang b)"
  by auto

lemma in_Eps [simp]: "(s \<in> lang Eps) = (s = [])"
  by auto

lemma dec_val_simps [simp]:
  "dec_val [] = 0"
  "dec_val (p @ [x]) = 10 * dec_val p + (unat x - 48)"
  by (simp_all add: dec_val_def)

lemma dec_val_small:
  "dec_val [a] = unat a - 48"
  "dec_val [a, b] = 10 * (unat a - 48) + (unat b - 48)"
  "dec_val [a, b, c] = 10 * (10 * (unat a - 48) + (unat b - 48)) + (unat c - 48)"
  "dec_val [a, b, c, d] = 10 * (10 * (10 * (unat a - 48) + (unat b - 48)) + (unat c - 48)) + (unat d - 48)"
  "dec_val [a, b, c, d, e] = 10 * (10 * (10 * (10 * (unat a - 48) + (unat b - 48)) + (unat c - 48)) + (unat d - 48)) + (unat e - 48)"
  by (simp_all add: dec_val_def)

lemma octet_sup:
  assumes "is_octet p" shows "p \<in> lang OCTET"
proof -
  from assms have len: "length p = 1 \<or> length p = 2 \<or> length p = 3"
    by (auto simp: is_octet_def)
  then consider a where "p = [a]" | a b where "p = [a, b]" | a b c where "p = [a, b, c]"
    by (auto simp: length_Suc_conv numeral_eq_Suc)
  then show ?thesis
  proof cases
    case 1 with assms show ?thesis
      by (simp add: OCTET_def is_octet_def is_digit_def del: lang.simps)
  next
    case 2 with assms show ?thesis
      by (simp add: OCTET_def is_octet_def is_digit_def del: lang.simps)
  next
    case 3 with assms show ?thesis
      apply (simp add: OCTET_def is_octet_def is_digit_def dec_val_small del: lang.simps dec_val_simps)
      apply arith
      done
  qed
qed

lemma lang_OCTET: "(p \<in> lang OCTET) = is_octet p"
  using octet_sub octet_sup by blast

lemma dec_val_lower:
  "p \<noteq> [] \<Longrightarrow> list_all is_digit p \<Longrightarrow> unat (hd p) \<noteq> 48 \<Longrightarrow> 10 ^ (length p - 1) \<le> dec_val p"
proof (induction p rule: rev_induct)
  case Nil then show ?case by simp
next
  case (snoc x xs)
  show ?case
  proof (cases "xs = []")
    case True with snoc.prems show ?thesis
      by (simp add: dec_val_small is_digit_def del: dec_val_simps) arith
  next
    case False
    with snoc have "10 ^ (length xs - 1) \<le> dec_val xs" by simp
    then have "10 * 10 ^ (length xs - 1) \<le> 10 * dec_val xs" by simp
    moreover from False have "(10::nat) * 10 ^ (length xs - 1) = 10 ^ length xs"
      by (cases xs) simp_all
    ultimately show ?thesis by simp
  qed
qed

lemma port_len:
  assumes "is_port p" shows "length p \<le> 5"
proof (rule ccontr)
  assume "\<not> length p \<le> 5"
  then have "5 \<le> length p - 1" by simp
  then have "(10::nat) ^ 5 \<le> 10 ^ (length p - 1)" by (rule power_increasing) simp
  moreover from assms have "10 ^ (length p - 1) \<le> dec_val p"
    by (intro dec_val_lower) (simp_all add: is_port_def)
  ultimately show False using assms by (simp add: is_port_def)
qed

lemma times_unfold:
  "times 2 r = Seq r (Seq r Eps)"
  "times 3 r = Seq r (Seq r (Seq r Eps))"
  "times 4 r = Seq r (Seq r (Seq r (Seq r Eps)))"
  "upto 3 r = Opt (Seq r (Opt (Seq r (Opt (Seq r Eps)))))"
  by (simp_all add: numeral_eq_Suc)

lemma in_Seq_Eps2 [simp]: "(s \<in> lang (Seq r Eps)) = (s \<in> lang r)"
  by auto

lemma port_sub: "p \<in> lang PORT \<Longrightarrow> is_port p"
  unfolding PORT_def is_port_def times_unfold
  by (auto simp: is_digit_def dec_val_small simp del: lang.simps dec_val_simps)

lemma port5_arith:
  fixes A B C D E :: nat
  assumes "48 \<le> A" "48 \<le> B" "48 \<le> C" "48 \<le> D" "48 \<le> E"
    and v: "10000 * (A - 48) + 1000 * (B - 48) + 100 * (C - 48) + 10 * (D - 48) + (E - 48) \<le> 65535"
  shows "A \<le> 53 \<or>
        A = 54 \<and> B \<le> 52 \<or>
        A = 54 \<and> B = 53 \<and> C \<le> 52 \<or>
        A = 54 \<and> B = 53 \<and> C = 53 \<and> D \<le> 50 \<or>
        A = 54 \<and> B = 53 \<and> C = 53 \<and> D = 51 \<and> E \<le> 53"
proof -
  obtain a b c d e where eqs: "A = 48 + a" "B = 48 + b" "C = 48 + c" "D = 48 + d" "E = 48 + e"
    using assms(1-5) by (metis le_iff_add)
  from v have w: "10000 * a + 1000 * b + 100 * c + 10 * d + e \<le> 65535"
    by (simp add: eqs)
  show ?thesis
  proof (cases "a \<le> 5")
    case True then show ?thesis by (simp add: eqs)
  next
    case False
    with w have a: "a = 6" by linarith
    with w have wb: "1000 * b + 100 * c + 10 * d + e \<le> 5535" by simp
    show ?thesis
    proof (cases "b \<le> 4")
      case True with a show ?thesis by (simp add: eqs)
    next
      case False
      with wb have b: "b = 5" by linarith
      with wb have wc: "100 * c + 10 * d + e \<le> 535" by simp
      show ?thesis
      proof (cases "c \<le> 4")
        case True with a b show ?thesis by (simp add: eqs)
      next
        case False
        with wc have c: "c = 5" by linarith
        with wc have wd: "10 * d + e \<le> 35" by simp
        show ?thesis
        proof (cases "d \<le> 2")
          case True with a b c show ?thesis by (simp add: eqs)
        next
          case False
          with wd have d: "d = 3" by linarith
          with wd have "e \<le> 5" by simp
          with a b c d show ?thesis by (simp add: eqs)
        qed
      qed
    qed
  qed
qed

lemma port_sup:
  assumes "is_port p" shows "p \<in> lang PORT"
proof -
  have "length p = 1 \<or> length p = 2 \<or> length p = 3 \<or> length p = 4 \<or> length p = 5"
  proof -
    from assms have "0 < length p" by (simp add: is_port_def)
    with port_len[OF assms] show ?thesis by arith
  qed
  then consider a where "p = [a]" | a b where "p = [a, b]" | a b c where "p = [a, b, c]"
    | a b c d where "p = [a, b, c, d]" | a b c d e where "p = [a, b, c, d, e]"
    by (auto simp: length_Suc_conv numeral_eq_Suc)
  then show ?thesis
  proof cases
    case 1 with assms show ?thesis
      by (simp add: PORT_def times_unfold is_port_def is_digit_def del: lang.simps)
  next
    case 2 with assms show ?thesis
      by (simp add: PORT_def times_unfold is_port_def is_digit_def del: lang.simps)
  next
    case 3 with assms show ?thesis
      by (simp add: PORT_def times_unfold is_port_def is_digit_def del: lang.simps)
  next
    case 4 with assms show ?thesis
      by (simp add: PORT_def times_unfold is_port_def is_digit_def del: lang.simps)
  next
    case 5 with assms show ?thesis
      apply (simp add: PORT_def times_unfold is_port_def is_digit_def dec_val_small del: lang.simps dec_val_simps)
      apply (elim conjE)
      apply (rule port5_arith)
      apply assumption+
      done
  qed
qed

lemma lang_PORT: "(p \<in> lang PORT) = is_port p"
  using port_sub port_sup by blast

lemma unat_jschar_eq: "(unat (x::jschar) = n) = (n < 65536 \<and> x = of_nat n)"
proof
  assume h: "unat x = n"
  have "unat x < 2 ^ LENGTH(16)" by (rule unsigned_less)
  with h have "n < 65536" by simp
  moreover have "x = of_nat (unat x)" by simp
  ultimately show "n < 65536 \<and> x = of_nat n" using h by simp
next
  assume "n < 65536 \<and> x = of_nat n"
  then show "unat x = n" by (simp add: unat_of_nat)
qed

lemma in_Seq_Seq [simp]: "(s \<in> lang (Seq (Seq a b) r)) = (s \<in> lang (Seq a (Seq b r)))"
  by (auto, metis append.assoc, metis append.assoc)

lemma in_Seq_OCTET: "(s \<in> lang (Seq OCTET r)) = (\<exists>a q. s = a @ q \<and> is_octet a \<and> q \<in> lang r)"
  by (auto simp: lang_OCTET)

lemma seqI: "a \<in> lang r1 \<Longrightarrow> q \<in> lang r2 \<Longrightarrow> a @ q \<in> lang (Seq r1 r2)"
  by auto

lemma litI: "unat x = k \<Longrightarrow> q \<in> lang r \<Longrightarrow> x # q \<in> lang (Seq (Lit k) r)"
  by (simp del: lang.simps)

lemma lang_PROXY_REGEX_1: "s \<in> lang PROXY_REGEX \<Longrightarrow> spec_valid_line s"
  unfolding PROXY_REGEX_def times_unfold spec_valid_line_def proxy_text_def
  apply (simp add: in_Seq_OCTET lang_PORT unat_jschar_eq js_def ch_def del: lang.simps)
  apply (elim exE conjE)
  apply simp
  apply blast
  done

lemma lang_PROXY_REGEX_2: "spec_valid_line s \<Longrightarrow> s \<in> lang PROXY_REGEX"
  unfolding PROXY_REGEX_def times_unfold spec_valid_line_def proxy_text_def
  apply (simp add: in_Seq_OCTET lang_PORT unat_jschar_eq js_def ch_def del: lang.simps)
  apply (elim exE conjE)
  apply simp
  apply (intro exI conjI; (rule refl | assumption))
  done

lemma regex_test_PROXY_REGEX: "regex_test PROXY_REGEX s = spec_valid_line s"
  using lang_PROXY_REGEX_1 lang_PROXY_REGEX_2 regex_test_lang by blast

lemma digits_split_unique:
  "list_all is_digit a \<Longrightarrow> list_all is_digit a' \<Longrightarrow> \<not> is_digit x \<Longrightarrow> \<not> is_digit x' \<Longrightarrow>
   a @ x # r = a' @ x' # r' \<Longrightarrow> a = a' \<and> r = r'"
proof (induction a arbitrary: a')
  case Nil then show ?case by (cases a') auto
next
  case (Cons y ys) then show ?case by (cases a') auto
qed

lemma sep_not_digit: "\<not> is_digit 46" "\<not> is_digit 58"
  by (simp_all add: is_digit_def)

lemma proxy_text_unique:
  assumes "list_all is_digit a" "list_all is_digit b" "list_all is_digit c" "list_all is_digit d"
    and "list_all is_digit a'" "list_all is_digit b'" "list_all is_digit c'" "list_all is_digit d'"
    and eq: "proxy_text a b c d p = proxy_text a' b' c' d' p'"
  shows "a = a' \<and> b = b' \<and> c = c' \<and> d = d' \<and> p = p'"
proof -
  from eq have e1: "a @ 46 # (b @ 46 # c @ 46 # d @ 58 # p) = a' @ 46 # (b' @ 46 # c' @ 46 # d' @ 58 # p')"
    by (simp add: proxy_text_def js_def ch_def)
  from digits_split_unique[OF assms(1) assms(5) sep_not_digit(1) sep_not_digit(1) e1]
  have a: "a = a'" and e2: "b @ 46 # (c @ 46 # d @ 58 # p) = b' @ 46 # (c' @ 46 # d' @ 58 # p')" by simp_all
  from digits_split_unique[OF assms(2) assms(6) sep_not_digit(1) sep_not_digit(1) e2]
  have b: "b = b'" and e3: "c @ 46 # (d @ 58 # p) = c' @ 46 # (d' @ 58 # p')" by simp_all
  from digits_split_unique[OF assms(3) assms(7) sep_not_digit(1) sep_not_digit(1) e3]
  have c: "c = c'" and e4: "d @ 58 # p = d' @ 58 # p'" by simp_all
  from digits_split_unique[OF assms(4) assms(8) sep_not_digit(2) sep_not_digit(2) e4]
  have "d = d'" "p = p'" by simp_all
  with a b c show ?thesis by simp
qed

lemma out_of_range_rejected:
  assumes dig: "list_all is_digit a" "list_all is_digit b" "list_all is_digit c" "list_all is_digit d"
    and bad: "255 < dec_val a \<or> 255 < dec_val b \<or> 255 < dec_val c \<or> 255 < dec_val d
              \<or> dec_val p = 0 \<or> 65535 < dec_val p"
  shows "\<not> regex_test PROXY_REGEX (proxy_text a b c d p)"
proof
  assume "regex_test PROXY_REGEX (proxy_text a b c d p)"
  then obtain a' b' c' d' p' where eq: "proxy_text a b c d p = proxy_text a' b' c' d' p'"
    and ok: "is_octet a'" "is_octet b'" "is_octet c'" "is_octet d'" "is_port p'"
    by (auto simp: regex_test_PROXY_REGEX spec_valid_line_def)
  from ok have "list_all is_digit a'" "list_all is_digit b'" "list_all is_digit c'" "list_all is_digit d'"
    by (simp_all add: is_octet_def)
  from proxy_text_unique[OF dig this eq] ok bad show False
    by (auto simp: is_octet_def is_port_def)
qed

lemma invalidLines_mem:
  "l \<in> set (invalidLines (validateProxies text)) \<longleftrightarrow> l \<in> set (proxy_lines text) \<and> \<not> regex_test PROXY_REGEX l"
  by (auto simp: validateProxies_def Let_def)


lemma unat_digit_char: "unat (digit_char d) = 48 + d mod 10"
proof -
  have lt: "48 + d mod 10 < 2 ^ LENGTH(16)"
  proof -
    have "d mod 10 < 10" by simp
    then show ?thesis by simp
  qed
  have "unat (of_nat (48 + d mod 10) :: 16 word) = (48 + d mod 10) mod 2 ^ LENGTH(16)"
    by (rule unat_of_nat)
  also have "\<dots> = 48 + d mod 10" using lt by (rule mod_less)
  finally show ?thesis unfolding digit_char_def .
qed

lemma is_digit_digit_char: "is_digit (digit_char d)"
  by (simp add: is_digit_def unat_digit_char)

lemma show_nat_digits: "list_all is_digit (show_nat n)"
  by (induction n rule: show_nat.induct) (subst show_nat.simps, simp add: is_digit_digit_char)

lemma show_nat_nonempty: "show_nat n \<noteq> []"
  by (subst show_nat.simps) simp

lemma dec_val_show_nat: "dec_val (show_nat n) = n"
proof (induction n rule: show_nat.induct)
  case (1 n)
  show ?case
  proof (cases "n < 10")
    case True
    then show ?thesis
      by (subst show_nat.simps) (simp add: dec_val_small unat_digit_char del: dec_val_simps)
  next
    case False
    with 1 have "dec_val (show_nat (n div 10)) = n div 10" by simp
    with False show ?thesis
      by (subst show_nat.simps) (simp add: unat_digit_char)
  qed
qed

lemma length_show_nat: "n < 1000 \<Longrightarrow> length (show_nat n) \<le> 3"
  by (subst show_nat.simps, simp, subst show_nat.simps, simp, subst show_nat.simps, simp)

lemma hd_show_nat: "0 < n \<Longrightarrow> unat (hd (show_nat n)) \<noteq> 48"
proof (induction n rule: show_nat.induct)
  case (1 n)
  show ?case
  proof (cases "n < 10")
    case True
    with 1(2) show ?thesis by (subst show_nat.simps) (simp add: unat_digit_char)
  next
    case False
    then have "0 < n div 10" by simp
    with 1 False have "unat (hd (show_nat (n div 10))) \<noteq> 48" by simp
    with False show ?thesis
      by (subst show_nat.simps) (simp add: show_nat_nonempty)
  qed
qed

lemma is_octet_show_nat:
  assumes "n \<le> 255" shows "is_octet (show_nat n)"
proof -
  from show_nat_nonempty[of n] have "1 \<le> length (show_nat n)" by (cases "show_nat n") simp_all
  moreover from assms have "length (show_nat n) \<le> 3" by (intro length_show_nat) simp
  ultimately show ?thesis
    using assms unfolding is_octet_def by (simp only: show_nat_digits dec_val_show_nat)
qed

lemma is_port_show_nat: "1 \<le> n \<Longrightarrow> n \<le> 65535 \<Longrightarrow> is_port (show_nat n)"
  by (simp add: is_port_def show_nat_nonempty show_nat_digits dec_val_show_nat hd_show_nat)

lemma canonical_line_accepted:
  assumes "a \<le> 255" "b \<le> 255" "c \<le> 255" "d \<le> 255" "1 \<le> p" "p \<le> 65535"
  shows "regex_test PROXY_REGEX (proxy_text (show_nat a) (show_nat b) (show_nat c) (show_nat d) (show_nat p))"
  unfolding regex_test_PROXY_REGEX spec_valid_line_def
  using assms by (blast intro: is_octet_show_nat is_port_show_nat)

text \<open>Leading zeros: an octet may carry them within its three digits, a port may not.\<close>

lemma leading_zero_examples:
  "regex_test PROXY_REGEX (js ''010.001.000.09:80'')"
  "\<not> regex_test PROXY_REGEX (js ''0010.1.0.9:80'')"
  "\<not> regex_test PROXY_REGEX (js ''10.1.0.9:080'')"
  by (simp_all add: js_def ch_def regex_test_def PROXY_REGEX_def OCTET_def PORT_def times_unfold)

text \<open>
  Claim C1. A trimmed non-empty line of a text is classified valid (it is not among
  \<open>invalidLines\<close>) exactly when it reads \<open>A.B.C.D:PORT\<close> with each of A to D an octet, one to
  three decimal digits of value at most 255, and PORT decimal digits without leading zero of value
  1 to 65535. So a line printed from four numbers up to 255 and a port from 1 to 65535 is
  valid; and a line \<open>A.B.C.D:PORT\<close> of decimal digit strings with an octet of 256 or more, or a
  port of 0 or of 65536 or more, is among the invalid lines, however many digits it is written
  with.
\<close>

theorem validator_line_classification:
  assumes "l \<in> set (proxy_lines text)"
  shows "(l \<notin> set (invalidLines (validateProxies text))) = spec_valid_line l
       \<and> (\<forall>a b c d p. l = proxy_text (show_nat a) (show_nat b) (show_nat c) (show_nat d) (show_nat p)
              \<and> a \<le> 255 \<and> b \<le> 255 \<and> c \<le> 255 \<and> d \<le> 255 \<and> 1 \<le> p \<and> p \<le> 65535
            \<longrightarrow> l \<notin> set (invalidLines (validateProxies text)))
       \<and> (\<forall>a b c d p. l = proxy_text a b c d p \<and> list_all is_digit a \<and> list_all is_digit b \<and>
              list_all is_digit c \<and> list_all is_digit d \<and>
              (255 < dec_val a \<or> 255 < dec_val b \<or> 255 < dec_val c \<or> 255 < dec_val d
                \<or> dec_val p = 0 \<or> 65535 < dec_val p)
            \<longrightarrow> l \<in> set (invalidLines (validateProxies text)))"
  using assms out_of_range_rejected canonical_line_accepted
  by (auto simp: invalidLines_mem regex_test_PROXY_REGEX)

lemma proxy_lines_example: "proxy_lines (js '' 10.0.0.1:8080 '') = [js ''10.0.0.1:8080'']"
  by (simp add: proxy_lines_def trim_def is_ws_def js_def ch_def)

theorem validator_line_classification_witness:
  "js ''10.0.0.1:8080'' \<in> set (proxy_lines (js '' 10.0.0.1:8080 ''))
   \<and> spec_valid_line (js ''10.0.0.1:8080'')"
proof -
  have mem: "js ''10.0.0.1:8080'' \<in> set (proxy_lines (js '' 10.0.0.1:8080 ''))"
    by (simp add: proxy_lines_example)
  have "regex_test PROXY_REGEX (js ''10.0.0.1:8080'')"
    by (simp add: js_def ch_def regex_test_def PROXY_REGEX_def OCTET_def PORT_def times_unfold)
  then have "js ''10.0.0.1:8080'' \<notin> set (invalidLines (validateProxies (js '' 10.0.0.1:8080 '')))"
    by (simp add: invalidLines_mem)
  with validator_line_classification[OF mem] mem show ?thesis by simp
qed

lemma split_nl_chars: "l \<in> set (split_nl t) \<Longrightarrow> set l \<subseteq> set t"
proof (induction t arbitrary: l)
  case Nil then show ?case by simp
next
  case (Cons x xs)
  show ?case
  proof (cases "unat x = 0x0A")
    case True with Cons show ?thesis by auto
  next
    case False
    show ?thesis
    proof (cases "split_nl xs")
      case Nil with False Cons.prems show ?thesis by simp
    next
      case (Cons l' ls)
      with False Cons.prems have "l = x # l' \<or> l \<in> set ls" by simp
      moreover have "set l' \<subseteq> set xs" using Cons.IH[of l'] Cons by simp
      moreover have "l \<in> set ls \<Longrightarrow> set l \<subseteq> set xs" using Cons.IH[of l] Cons by simp
      ultimately show ?thesis by auto
    qed
  qed
qed

lemma trim_all_ws:
  assumes "list_all is_ws l" shows "trim l = []"
proof -
  from assms have h: "dropWhile is_ws l = []" by (induction l) simp_all
  show ?thesis unfolding trim_def h by simp
qed

lemma proxy_lines_all_ws:
  assumes "list_all is_ws t" shows "proxy_lines t = []"
proof -
  have "trim l = []" if "l \<in> set (split_nl t)" for l
  proof -
    from split_nl_chars[OF that] assms have "list_all is_ws l" by (auto simp: list_all_iff)
    then show ?thesis by (rule trim_all_ws)
  qed
  then show ?thesis by (auto simp: proxy_lines_def filter_empty_conv)
qed

lemma proxy_lines_alt:
  "proxy_lines t = map trim (filter (\<lambda>l. trim l \<noteq> []) (split_nl t))"
  by (simp add: proxy_lines_def filter_map comp_def)

text \<open>
  Claim C8, as the code has it. \<open>totalLines\<close> is the number of lines that are non-empty once
  trimmed; \<open>isValid\<close> holds exactly when \<open>invalidLines\<close> is empty, so it holds with
  \<open>totalLines = 0\<close> for an empty or all-whitespace text; \<open>invalidLines\<close> lists, in input
  order, the trimmed text of each non-empty line that fails the pattern.
\<close>

theorem validateProxies_result:
  "totalLines (validateProxies t) = length (filter (\<lambda>l. trim l \<noteq> []) (split_nl t))
   \<and> isValid (validateProxies t) = (invalidLines (validateProxies t) = [])
   \<and> invalidLines (validateProxies t)
       = map trim (filter (\<lambda>l. trim l \<noteq> [] \<and> \<not> regex_test PROXY_REGEX (trim l)) (split_nl t))
   \<and> (list_all is_ws t \<longrightarrow> isValid (validateProxies t) \<and> totalLines (validateProxies t) = 0)"
proof -
  have 1: "totalLines (validateProxies t) = length (filter (\<lambda>l. trim l \<noteq> []) (split_nl t))"
    by (simp add: validateProxies_def Let_def proxy_lines_alt)
  have 2: "isValid (validateProxies t) = (invalidLines (validateProxies t) = [])"
    by (simp add: validateProxies_def Let_def)
  have 3: "invalidLines (validateProxies t)
       = map trim (filter (\<lambda>l. trim l \<noteq> [] \<and> \<not> regex_test PROXY_REGEX (trim l)) (split_nl t))"
    by (auto simp: validateProxies_def Let_def proxy_lines_alt filter_map comp_def conj_commute filter_empty_conv)
  have 4: "list_all is_ws t \<longrightarrow> isValid (validateProxies t) \<and> totalLines (validateProxies t) = 0"
    by (simp add: validateProxies_def Let_def proxy_lines_all_ws)
  from 1 2 3 4 show ?thesis by blast
qed

theorem validateProxies_result_witness:
  "list_all is_ws (js ''  '') \<and> isValid (validateProxies (js ''  '')) \<and> totalLines (validateProxies (js ''  '')) = 0"
proof -
  have "list_all is_ws (js ''  '')" by (simp add: js_def ch_def is_ws_def)
  with validateProxies_result[of "js ''  ''"] show ?thesis by blast
qed

lemma split_nl_padded: "split_nl (js '' x '') = [js '' x '']"
  by (simp add: js_def ch_def)

lemma proxy_lines_padded: "proxy_lines (js '' x '') = [js ''x'']"
  by (simp add: proxy_lines_def split_nl_padded) (simp add: trim_def is_ws_def js_def ch_def)

lemma not_proxy_x: "\<not> regex_test PROXY_REGEX (js ''x'')"
  by (simp add: js_def ch_def regex_test_def PROXY_REGEX_def OCTET_def PORT_def times_unfold)

theorem invalidLines_untrimmed_counterexample:
  "invalidLines (validateProxies (js '' x '')) = [js ''x'']
   \<and> invalidLines (validateProxies (js '' x ''))
       \<noteq> filter (\<lambda>l. trim l \<noteq> [] \<and> \<not> regex_test PROXY_REGEX (trim l)) (split_nl (js '' x ''))"
proof -
  have a: "invalidLines (validateProxies (js '' x '')) = [js ''x'']"
    by (simp add: validateProxies_def proxy_lines_padded not_proxy_x)
  have "trim (js '' x '') = js ''x''"
    by (simp add: trim_def is_ws_def js_def ch_def)
  then have b: "filter (\<lambda>l. trim l \<noteq> [] \<and> \<not> regex_test PROXY_REGEX (trim l)) (split_nl (js '' x ''))
      = [js '' x '']"
    by (simp add: split_nl_padded not_proxy_x) (simp add: js_def)
  have "js ''x'' \<noteq> js '' x ''" by (simp add: js_def)
  with a b show ?thesis by simp
qed

text \<open>
  Claim C10. The validators of the two files return the same \<open>isValid\<close> flag and the same
  \<open>invalidLines\<close> for every text.
\<close>

theorem validateProxies_files_agree:
  "isValid_idx (validateProxies_idx t) = isValid (validateProxies t)
   \<and> invalidLines_idx (validateProxies_idx t) = invalidLines (validateProxies t)"
  by (simp add: validateProxies_def validateProxies_idx_def PROXY_REGEX_def PROXY_REGEX_idx_def Let_def)

section \<open>Bounded buffers\<close>

lemma length_slice_last: "length (slice_last n xs) \<le> n"
  by (simp add: slice_last_def)

lemma length_addLog: "length (addLog now msg ty l) \<le> 100"
  using length_slice_last[of 99 l] by (simp add: addLog_def)

lemma length_history_tick: "length (history_tick now v h) \<le> 25"
  by (simp add: history_tick_def length_slice_last)

lemma length_logs_after: "length (logs_after ops) \<le> 100"
proof (induction ops rule: rev_induct)
  case Nil show ?case by (simp add: logs_after_def)
next
  case (snoc op ops)
  show ?case by (cases op) (simp_all add: logs_after_def length_addLog clearLogs_def)
qed

lemma length_history_after: "length (history_after ops) \<le> 25"
proof (induction ops rule: rev_induct)
  case Nil show ?case by (simp add: history_after_def)
next
  case (snoc op ops)
  show ?case by (cases op) (simp_all add: history_after_def length_history_tick history_seed_def)
qed

lemma slice_last_append1:
  assumes "length xs \<le> Suc n"
  shows "slice_last (Suc n) (xs @ [e]) = (if length xs < Suc n then xs else tl xs) @ [e]"
proof (cases "length xs < Suc n")
  case True then show ?thesis by (simp add: slice_last_def)
next
  case False
  with assms have "length xs = Suc n" by simp
  then show ?thesis by (simp add: slice_last_def drop_Suc)
qed

lemma slice_last_full:
  assumes "length xs \<le> Suc n"
  shows "slice_last n xs = (if length xs < Suc n then xs else tl xs)"
proof (cases "length xs < Suc n")
  case True then show ?thesis by (simp add: slice_last_def)
next
  case False
  with assms have "length xs = Suc n" by simp
  then show ?thesis by (simp add: slice_last_def drop_Suc)
qed

text \<open>
  Claim C5. Whatever operations came before, the history holds at most 25 entries and the log at
  most 100. An append to a buffer that is full drops its oldest entry, keeps the others in their
  order and puts the new entry last; below the cap nothing is dropped.
\<close>

theorem buffers_bounded_fifo:
  "length (history_after hops) \<le> 25
   \<and> length (logs_after lops) \<le> 100
   \<and> history_tick now v (history_after hops)
       = (if length (history_after hops) < 25 then history_after hops else tl (history_after hops))
         @ [\<lparr>time = now, views = v\<rparr>]
   \<and> addLog now' msg ty (logs_after lops)
       = (if length (logs_after lops) < 100 then logs_after lops else tl (logs_after lops))
         @ [\<lparr>timestamp = now', message = msg, ltype = ty\<rparr>]"
proof -
  have h: "length (history_after hops) \<le> Suc 24" using length_history_after[of hops] by simp
  have l: "length (logs_after lops) \<le> Suc 99" using length_logs_after[of lops] by simp
  have "history_tick now v (history_after hops)
       = (if length (history_after hops) < 25 then history_after hops else tl (history_after hops))
         @ [\<lparr>time = now, views = v\<rparr>]"
    using slice_last_append1[OF h] by (simp add: history_tick_def)
  moreover have "addLog now' msg ty (logs_after lops)
       = (if length (logs_after lops) < 100 then logs_after lops else tl (logs_after lops))
         @ [\<lparr>timestamp = now', message = msg, ltype = ty\<rparr>]"
    using slice_last_full[OF l] by (simp add: addLog_def)
  ultimately show ?thesis using length_history_after length_logs_after by blast
qed

section \<open>Retry-Fetch Unit\<close>

lemma js_neq_simps:
  "js ''Error'' \<noteq> js ''AbortError''"
  "js ''HTTP_'' @ s \<noteq> js ''AbortError''"
  by (simp_all add: js_def ch_def)

lemma not_abort_caught: "fetch_fails oc \<Longrightarrow> \<not> is_abort (caught oc)"
  by (cases oc) (simp_all add: is_abort_def js_neq_simps)

lemma on_fetch_fails:
  "fetch_fails oc \<Longrightarrow> on_fetch sd m n oc = on_catch sd m n (caught oc)"
  by (cases oc) (simp_all add: on_fetch_def)

lemma on_fetch_fails_last:
  assumes "fetch_fails oc"
  shows "on_fetch sd m m oc =
     (Returned None, [AddLog (failure_message sd m m (caught oc)) Warning, SetStatus error,
                      AddLog (terminal_message sd m) Error])"
  using assms not_abort_caught[OF assms] by (simp add: on_fetch_fails on_catch_def)

lemma on_fetch_fails_retry:
  assumes "fetch_fails oc" "n \<noteq> m"
  shows "on_fetch sd m n oc =
     (Waiting n, [AddLog (failure_message sd m n (caught oc)) Warning, CallWait (1500 * 2 ^ n)])"
  using assms not_abort_caught[OF assms(1)] by (simp add: on_fetch_fails on_catch_def)



lemma fail_trace_waits:
  "filter is_CallWait (fail_trace sd url m n ocs) = map (\<lambda>i. CallWait (1500 * 2 ^ i)) [n..<n + (length ocs - 1)]"
  by (induction sd url m n ocs rule: fail_trace.induct) (simp_all add: upt_rec)









text \<open>
  Claim C6, for both files. After a failed attempt with index \<open>attempt\<close> below
  \<open>maxRetries\<close> the unit of the canonical file logs its warning and waits
  \<open>1500 * 2 ^ attempt\<close> milliseconds, and the timer leads straight into the next attempt; the
  unit of \<open>src/index.tsx\<close> waits \<open>1000 * 2 ^ attempt\<close>. After the failed final attempt
  both return null without waiting. The delay depends on nothing but the attempt index.
\<close>

theorem backoff_after_failed_attempt:
  assumes "fetch_fails oc"
  shows "(attempt < maxRetries \<longrightarrow>
            on_fetch sd maxRetries attempt oc
              = (Waiting attempt,
                 [AddLog (failure_message sd maxRetries attempt (caught oc)) Warning,
                  CallWait (1500 * 2 ^ attempt)])
          \<and> unit_resume sd url maxRetries False (Waiting attempt) Fires
              = (Fetching (attempt + 1), [SetStatus retrying, CallFetch url])
          \<and> on_fetch_idx sd maxRetries attempt oc = (Waiting attempt, [CallWait (1000 * 2 ^ attempt)]))
       \<and> (attempt = maxRetries \<longrightarrow>
            fst (on_fetch sd maxRetries attempt oc) = Returned None
          \<and> filter is_CallWait (snd (on_fetch sd maxRetries attempt oc)) = []
          \<and> fst (on_fetch_idx sd maxRetries attempt oc) = Returned None
          \<and> filter is_CallWait (snd (on_fetch_idx sd maxRetries attempt oc)) = [])"
proof -
  have idx: "on_fetch_idx sd maxRetries n oc
      = (if n = maxRetries then
           (Returned None,
            [SetStatus error,
             AddLog (js ''Cluster '' @ side_name sd @ js '' connection timeout after ''
                       @ show_nat maxRetries @ js '' attempts.'') Error])
         else (Waiting n, [CallWait (1000 * 2 ^ n)]))" for n
    using assms by (cases oc) (simp_all add: on_fetch_idx_def on_catch_idx_def is_abort_def js_neq_simps)
  show ?thesis
    using assms
    by (auto simp: idx on_fetch_fails_last on_fetch_fails_retry unit_resume_def loop_head_def)
qed

theorem backoff_after_failed_attempt_witness:
  "fetch_fails (NotOk 500 []) \<and> (0::nat) < 3
   \<and> on_fetch SideA 3 0 (NotOk 500 [])
       = (Waiting 0, [AddLog (failure_message SideA 3 0 (caught (NotOk 500 []))) Warning,
                      CallWait (1500 * 2 ^ 0)])
   \<and> on_fetch_idx SideA 3 3 (NotOk 500 [])
       = (Returned None, snd (on_fetch_idx SideA 3 3 (NotOk 500 [])))"
proof -
  have f: "fetch_fails (NotOk 500 [])" by simp
  from backoff_after_failed_attempt[OF f, of 0 3 SideA]
       backoff_after_failed_attempt[OF f, of 3 3 SideA] f
  show ?thesis by (simp add: prod_eq_iff)
qed

theorem backoff_index_file_counterexample:
  "fetch_fails (NotOk 500 [])
   \<and> snd (on_fetch_idx SideA 3 0 (NotOk 500 [])) = [CallWait 1000]
   \<and> CallWait (1500 * 2 ^ 0) \<notin> set (snd (on_fetch_idx SideA 3 0 (NotOk 500 [])))"
  by (simp add: on_fetch_idx_def on_catch_idx_def js_neq_simps)

section \<open>Dual-Source Sync Coordinator\<close>

lemma valid_lines_alt:
  "filter (regex_test PROXY_REGEX) (proxy_lines text)
   = filter (\<lambda>l. l \<notin> set (invalidLines (validateProxies text))) (proxy_lines text)"
  by (rule filter_cong) (simp_all add: invalidLines_mem)

text \<open>
  Claim C4, as the code has it. For content that is neither null nor the empty string the
  coordinator replaces the side's proxy list (the left one for index 0) by the lines the
  validator classifies valid, in their order, joined by line feeds, and adds one log entry: a
  warning when there are lines and none is valid, otherwise a success entry with the two counts.
\<close>

theorem aggregate_fetched_content:
  assumes "text \<noteq> []"
  shows "aggregate now i (Some text) a =
     (let valid = filter (\<lambda>l. l \<notin> set (invalidLines (validateProxies text))) (proxy_lines text);
          sd = (if i = 0 then SideA else SideB);
          entry = (if valid = [] \<and> proxy_lines text \<noteq> [] then
                     \<lparr>timestamp = now,
                      message = js ''Cluster '' @ side_name sd
                        @ js '' fetch successful, but 0 valid proxy patterns found in ''
                        @ show_nat (length (proxy_lines text)) @ js '' lines.'',
                      ltype = Warning\<rparr>
                   else
                     \<lparr>timestamp = now,
                      message = js ''Cluster '' @ side_name sd @ js '' synchronization complete. Loaded ''
                        @ show_nat (length valid) @ js ''/'' @ show_nat (length (proxy_lines text))
                        @ js '' valid nodes.'',
                      ltype = Success\<rparr>)
      in if i = 0 then a\<lparr>proxiesLeft := join_nl valid, logs := slice_last 99 (logs a) @ [entry]\<rparr>
         else a\<lparr>proxiesRight := join_nl valid, logs := slice_last 99 (logs a) @ [entry]\<rparr>)"
proof -
  have len0: "(length xs = 0) = (xs = [])" "(0 < length xs) = (xs \<noteq> [])" for xs :: "jsstring list"
    by simp_all
  show ?thesis
    using assms
    unfolding aggregate_def len0
    by (simp add: Let_def addLog_def valid_lines_alt)
qed

lemma aggregate_skips: "aggregate now i None a = a" "aggregate now i (Some []) a = a"
  by (simp_all add: aggregate_def)

theorem aggregate_fetched_content_witness:
  "js ''x'' \<noteq> []
   \<and> proxiesLeft (aggregate [] 0 (Some (js ''x''))
        \<lparr>statusA = success, statusB = idle, proxiesLeft = js ''1.1.1.1:80'', proxiesRight = [], logs = []\<rparr>)
     = []"
proof -
  have ne: "js ''x'' \<noteq> []" by (simp add: js_def)
  have pl: "proxy_lines (js ''x'') = [js ''x'']"
    by (simp add: proxy_lines_def trim_def is_ws_def js_def ch_def)
  have nv: "\<not> regex_test PROXY_REGEX (js ''x'')"
    by (simp add: js_def ch_def regex_test_def PROXY_REGEX_def OCTET_def PORT_def times_unfold)
  have "invalidLines (validateProxies (js ''x'')) = [js ''x'']"
    by (simp add: validateProxies_def pl nv)
  with aggregate_fetched_content[OF ne, of "[]" 0] ne pl show ?thesis
    by (simp add: Let_def)
qed

theorem aggregate_empty_body_counterexample:
  "aggregate [] 0 (Some [])
     \<lparr>statusA = success, statusB = idle, proxiesLeft = js ''1.1.1.1:80'', proxiesRight = [], logs = []\<rparr>
   = \<lparr>statusA = success, statusB = idle, proxiesLeft = js ''1.1.1.1:80'', proxiesRight = [], logs = []\<rparr>
   \<and> js ''1.1.1.1:80'' \<noteq> join_nl (filter (\<lambda>l. regex_test PROXY_REGEX l) (proxy_lines []))"
  by (simp add: aggregate_def proxy_lines_def trim_def js_def)

lemma apply_effect_frame:
  "unitA (apply_effect now sd s e) = unitA s"
  "unitB (apply_effect now sd s e) = unitB s"
  "urlA (apply_effect now sd s e) = urlA s"
  "urlB (apply_effect now sd s e) = urlB s"
  "aborted (apply_effect now sd s e) = aborted s"
  "controller (apply_effect now sd s e) = controller s"
  "awaiting (apply_effect now sd s e) = awaiting s"
  "proxiesLeft (app (apply_effect now sd s e)) = proxiesLeft (app s)"
  "proxiesRight (app (apply_effect now sd s e)) = proxiesRight (app s)"
  by (cases e; cases sd; simp)+

lemma apply_effects_frame:
  "unitA (apply_effects now sd s es) = unitA s"
  "unitB (apply_effects now sd s es) = unitB s"
  "urlA (apply_effects now sd s es) = urlA s"
  "urlB (apply_effects now sd s es) = urlB s"
  "aborted (apply_effects now sd s es) = aborted s"
  "controller (apply_effects now sd s es) = controller s"
  "awaiting (apply_effects now sd s es) = awaiting s"
  "proxiesLeft (app (apply_effects now sd s es)) = proxiesLeft (app s)"
  "proxiesRight (app (apply_effects now sd s es)) = proxiesRight (app s)"
  unfolding apply_effects_def
  by (induction es arbitrary: s; simp add: apply_effect_frame)+

lemma apply_effects_Nil [simp]: "apply_effects now sd s [] = s"
  by (simp add: apply_effects_def)

lemma unit_of_apply_effects [simp]: "unit_of sd' (apply_effects now sd s es) = unit_of sd' s"
  by (cases sd') (simp_all add: unit_of_def apply_effects_frame)

lemma unit_of_set_unit [simp]:
  "unit_of sd (set_unit sd st s) = st"
  "sd' \<noteq> sd \<Longrightarrow> unit_of sd' (set_unit sd st s) = unit_of sd' s"
  by (cases sd; cases sd'; simp add: unit_of_def set_unit_def)+

lemma set_unit_frame [simp]:
  "aborted (set_unit sd st s) = aborted s"
  "controller (set_unit sd st s) = controller s"
  "awaiting (set_unit sd st s) = awaiting s"
  "app (set_unit sd st s) = app s"
  "urlA (set_unit sd st s) = urlA s"
  "urlB (set_unit sd st s) = urlB s"
  "calls (set_unit sd st s) = calls s"
  by (cases sd; simp add: set_unit_def)+

lemma unit_resume_ok:
  assumes "unit_ok st" "unit_resume sd url 3 ab st inp = (st', es)"
  shows "unit_ok st'"
    and "is_Fetching st' \<Longrightarrow> \<not> is_Fetching st \<Longrightarrow> \<not> ab"
  using assms
  by (auto simp: unit_resume_def on_fetch_def on_catch_def loop_head_def
      split: ustate.splits unit_input.splits fetch_outcome.splits if_splits)


lemma is_abort_simps [simp]: "is_abort abortErr" "is_abort fetch_abort"
  by (simp_all add: is_abort_def abortErr_def fetch_abort_def)

lemma done_step:
  assumes "after_cancel_done a s"
  shows "after_cancel_done a (step now s ev)"
proof (cases ev)
  case (FetchSettles sd oc)
  with assms show ?thesis
    by (cases sd; cases "unitA s"; cases "unitB s"; simp add: after_cancel_done_def unit_of_def)
next
  case CancelClick
  with assms show ?thesis by (simp add: after_cancel_done_def handleCancelSync_def)
next
  case (TimerFires sd)
  show ?thesis
  proof (cases "unit_of sd s")
    case (Waiting n)
    with assms have n: "n < 3" by (cases sd) (auto simp: after_cancel_done_def unit_of_def)
    from assms have ab: "aborted s" "\<not> awaiting s" by (simp_all add: after_cancel_done_def)
    have "step now s ev = set_unit sd (Threw abortErr) s"
      using TimerFires Waiting n ab
      by (simp add: resume_def unit_resume_def loop_head_def coordinate_def)
    with assms show ?thesis
      by (cases sd) (auto simp: after_cancel_done_def set_unit_def)
  qed (use TimerFires assms in simp_all)
qed

lemma done_run:
  "after_cancel_done a s \<Longrightarrow> after_cancel_done a (run evs s)"
  unfolding run_def
  by (induction evs arbitrary: s) (auto simp: done_step)


text \<open>After the click while every running unit sits in its backoff: nothing moves until a timer fires.\<close>

lemma waiting_step:
  assumes inv: "session_inv s" and aw: "awaiting s" and ab: "aborted s"
  shows "(if (\<exists>sd. ev = TimerFires sd \<and> is_Waiting (unit_of sd s))
          then after_cancel_done (cancelled_app now (app s)) (step now s ev)
          else step now s ev = s)"
proof -
  from inv aw ab have c: "controller s" and nf: "\<not> is_Fetching (unitA s)" "\<not> is_Fetching (unitB s)"
    and ok: "unit_ok (unitA s)" "unit_ok (unitB s)"
    by (simp_all add: session_inv_def)
  show ?thesis
  proof (cases ev)
    case (FetchSettles sd oc)
    with nf show ?thesis
      by (cases sd; cases "unitA s"; cases "unitB s"; simp add: unit_of_def)
  next
    case CancelClick
    with c ab nf show ?thesis
      by (cases "unitA s"; cases "unitB s"; simp add: handleCancelSync_def abort_fetch_def unit_of_def)
  next
    case (TimerFires sd)
    show ?thesis
    proof (cases "unit_of sd s")
      case (Waiting n)
      with ok have n: "n < 3" by (cases sd) (auto simp: unit_of_def)
      have "step now s ev = on_rejected now abortErr (set_unit sd (Threw abortErr) s)"
        using TimerFires Waiting n ab aw
        by (simp add: resume_def unit_resume_def loop_head_def coordinate_def)
      then show ?thesis
        using TimerFires Waiting ab nf ok
        by (cases sd)
           (auto simp: after_cancel_done_def on_rejected_def finish_def set_unit_def cancelled_app_def unit_of_def)
    qed (use TimerFires in simp_all)
  qed
qed

lemma cancel_step:
  assumes inv: "session_inv s" and aw: "awaiting s" and nab: "\<not> aborted s"
  shows "(if is_Fetching (unitA s) \<or> is_Fetching (unitB s)
          then after_cancel_done (cancelled_app now (app s)) (step now s CancelClick)
          else step now s CancelClick = s\<lparr>aborted := True\<rparr>)"
proof -
  from inv aw have c: "controller s" and nt: "\<not> is_Threw (unitA s)" "\<not> is_Threw (unitB s)"
    and ok: "unit_ok (unitA s)" "unit_ok (unitB s)"
    by (simp_all add: session_inv_def)
  have fa: "on_fetch sd 3 n (Rejected fetch_abort) = (Threw fetch_abort, [])" for sd n
    by (simp add: on_fetch_def on_catch_def)
  show ?thesis
    using c aw nt ok
    by (cases "unitA s"; cases "unitB s";
        simp add: handleCancelSync_def abort_fetch_def unit_of_def resume_def unit_resume_def fa
          coordinate_def on_rejected_def finish_def set_unit_def after_cancel_done_def cancelled_app_def)
qed

lemma start_inv:
  assumes "handleSyncFromUrls now uA uB a = Inr s0"
  shows "session_inv s0" "\<not> aborted s0" "awaiting s0"
proof -
  from assms have g: "\<not> isSyncing a" "uA \<noteq> [] \<or> uB \<noteq> []"
    by (auto simp: handleSyncFromUrls_def split: if_splits)
  from assms g have s0: "s0 = apply_effects now SideB
                   (apply_effects now SideA
                      \<lparr>app = a\<lparr>logs := addLog now
                                 (js ''Initiating Multi-Cluster Synchronize sequence...'') Info (logs a)\<rparr>,
                       urlA = uA, urlB = uB, unitA = fst (fetchWithRetry_start uA 3 False),
                       unitB = fst (fetchWithRetry_start uB 3 False),
                       aborted = False, controller = True, awaiting = True, calls = []\<rparr>
                      (snd (fetchWithRetry_start uA 3 False)))
                   (snd (fetchWithRetry_start uB 3 False))"
    by (auto simp: handleSyncFromUrls_def split: prod.splits)
  have u: "fst (fetchWithRetry_start u 3 False) = (if u = [] then Returned None else Fetching 0)" for u
    by (simp add: fetchWithRetry_start_def loop_head_def)
  from g show "session_inv s0" "\<not> aborted s0" "awaiting s0"
    unfolding s0 by (auto simp: session_inv_def apply_effects_frame u)
qed


lemma all_sides: "(\<forall>sd. P sd) = (P SideA \<and> P SideB)"
  by (metis side.exhaust)

lemma ex_sides: "(\<exists>sd. P sd) = (P SideA \<or> P SideB)"
  by (metis side.exhaust)

lemma both_units: "P (unitA s) \<and> P (unitB s) \<longleftrightarrow> P (unit_of sd s) \<and> P (unit_of (other sd) s)"
  by (cases sd) (auto simp: unit_of_def)

lemma either_unit: "P (unitA s) \<or> P (unitB s) \<longleftrightarrow> P (unit_of sd s) \<or> P (unit_of (other sd) s)"
  by (cases sd) (auto simp: unit_of_def)

lemma session_inv_sides:
  "session_inv s =
     (unit_ok (unit_of sd s) \<and> unit_ok (unit_of (other sd) s) \<and>
      (if awaiting s then
         controller s \<and> \<not> is_Threw (unit_of sd s) \<and> \<not> is_Threw (unit_of (other sd) s) \<and>
         (is_Fetching (unit_of sd s) \<or> is_Waiting (unit_of sd s)
            \<or> is_Fetching (unit_of (other sd) s) \<or> is_Waiting (unit_of (other sd) s)) \<and>
         (aborted s \<longrightarrow> \<not> is_Fetching (unit_of sd s) \<and> \<not> is_Fetching (unit_of (other sd) s))
       else \<not> controller s))"
  by (cases sd) (auto simp: session_inv_def unit_of_def)

lemma coordinate_not_awaiting: "\<not> awaiting m \<Longrightarrow> coordinate now sd m = m"
  by (simp add: coordinate_def)

lemma coordinate_pending:
  "is_Fetching (unit_of sd m) \<or> is_Waiting (unit_of sd m) \<Longrightarrow> coordinate now sd m = m"
  by (cases "unit_of sd m") (simp_all add: coordinate_def)

lemma coordinate_threw:
  "awaiting m \<Longrightarrow> unit_of sd m = Threw err \<Longrightarrow> coordinate now sd m = on_rejected now err m"
  by (simp add: coordinate_def)

lemma coordinate_returned_wait:
  "unit_of sd m = Returned r \<Longrightarrow> \<not> is_Returned (unit_of (other sd) m) \<Longrightarrow> coordinate now sd m = m"
  by (cases sd; cases "unitA m"; cases "unitB m"; simp add: coordinate_def unit_of_def)

lemma coordinate_returned_both:
  "awaiting m \<Longrightarrow> unit_of sd m = Returned r \<Longrightarrow> is_Returned (unit_of (other sd) m) \<Longrightarrow>
   \<exists>cA cB. coordinate now sd m = on_all_fulfilled now cA cB m"
  by (cases sd; cases "unitA m"; cases "unitB m"; simp add: coordinate_def unit_of_def; blast)

lemma finished_frame [simp]:
  "unitA (on_rejected now err m) = unitA m" "unitB (on_rejected now err m) = unitB m"
  "aborted (on_rejected now err m) = aborted m"
  "\<not> awaiting (on_rejected now err m)" "\<not> controller (on_rejected now err m)"
  "unitA (on_all_fulfilled now cA cB m) = unitA m" "unitB (on_all_fulfilled now cA cB m) = unitB m"
  "aborted (on_all_fulfilled now cA cB m) = aborted m"
  "\<not> awaiting (on_all_fulfilled now cA cB m)" "\<not> controller (on_all_fulfilled now cA cB m)"
  by (simp_all add: on_rejected_def on_all_fulfilled_def finish_def)

lemma coordinate_inv:
  assumes ok: "unit_ok (unit_of sd m)" "unit_ok (unit_of (other sd) m)"
    and c: "if awaiting m then controller m else \<not> controller m"
    and oth: "awaiting m \<Longrightarrow> is_Fetching (unit_of (other sd) m) \<or> is_Waiting (unit_of (other sd) m)
                 \<or> is_Returned (unit_of (other sd) m)"
    and nab: "\<not> aborted m"
  shows "session_inv (coordinate now sd m) \<and> \<not> aborted (coordinate now sd m)"
proof (cases "awaiting m")
  case False
  with assms show ?thesis
    by (simp add: coordinate_not_awaiting session_inv_sides[of m sd])
next
  case True
  note aw = this
  from oth[OF aw] have nto: "\<not> is_Threw (unit_of (other sd) m)"
    by (cases "unit_of (other sd) m") simp_all
  show ?thesis
  proof (cases "unit_of sd m")
    case (Fetching n)
    with assms aw nto show ?thesis
      by (simp add: coordinate_pending session_inv_sides[of m sd])
  next
    case (Waiting n)
    with assms aw nto show ?thesis
      by (simp add: coordinate_pending session_inv_sides[of m sd])
  next
    case (Threw err)
    with aw have "coordinate now sd m = on_rejected now err m" by (simp add: coordinate_threw)
    with ok nab both_units[of unit_ok m sd] show ?thesis
      by (simp add: session_inv_def)
  next
    case (Returned r)
    show ?thesis
    proof (cases "is_Returned (unit_of (other sd) m)")
      case True
      from coordinate_returned_both[OF aw Returned True]
      obtain cA cB where "coordinate now sd m = on_all_fulfilled now cA cB m" by blast
      with ok nab both_units[of unit_ok m sd] show ?thesis
        by (simp add: session_inv_def)
    next
      case False
      with oth[OF aw] have p: "is_Fetching (unit_of (other sd) m) \<or> is_Waiting (unit_of (other sd) m)"
        by simp
      from Returned False have "coordinate now sd m = m" by (simp add: coordinate_returned_wait)
      with assms aw nto p Returned show ?thesis
        by (simp add: session_inv_sides[of m sd])
    qed
  qed
qed


lemma other_neq [simp]: "other sd \<noteq> sd"
  by (cases sd) simp_all

lemma not_Threw_cases:
  "\<not> is_Threw u \<Longrightarrow> is_Fetching u \<or> is_Waiting u \<or> is_Returned u"
  by (cases u) simp_all

lemma resume_inv:
  assumes inv: "session_inv s" and nab: "\<not> aborted s"
  shows "session_inv (resume now sd inp s) \<and> \<not> aborted (resume now sd inp s)"
proof -
  obtain st' es where r: "unit_resume sd (url_of sd s) 3 (aborted s) (unit_of sd s) inp = (st', es)"
    by (cases "unit_resume sd (url_of sd s) 3 (aborted s) (unit_of sd s) inp") blast
  define m where "m = apply_effects now sd (set_unit sd st' s) es"
  have res: "resume now sd inp s = coordinate now sd m"
    by (simp add: resume_def r m_def)
  from inv have oks: "unit_ok (unit_of sd s)" "unit_ok (unit_of (other sd) s)"
    by (simp_all add: session_inv_sides[of s sd])
  have u: "unit_of sd m = st'" "unit_of (other sd) m = unit_of (other sd) s"
    by (simp_all add: m_def)
  have fl: "awaiting m = awaiting s" "controller m = controller s" "aborted m = aborted s"
    by (simp_all add: m_def apply_effects_frame)
  have ok: "unit_ok (unit_of sd m)" "unit_ok (unit_of (other sd) m)"
    using unit_resume_ok(1)[OF oks(1) r] oks(2) by (simp_all add: u)
  have c: "if awaiting m then controller m else \<not> controller m"
    using inv by (simp add: fl session_inv_def)
  have oth: "is_Fetching (unit_of (other sd) m) \<or> is_Waiting (unit_of (other sd) m)
                 \<or> is_Returned (unit_of (other sd) m)" if "awaiting m"
  proof -
    from that inv have "\<not> is_Threw (unit_of (other sd) s)"
      by (simp add: fl session_inv_sides[of s sd])
    then show ?thesis unfolding u by (rule not_Threw_cases)
  qed
  from nab have nab': "\<not> aborted m" by (simp add: fl)
  from coordinate_inv[OF ok c oth nab'] show ?thesis by (simp add: res)
qed

lemma step_inv:
  assumes "session_inv s" "\<not> aborted s" "ev \<noteq> CancelClick"
  shows "session_inv (step now s ev) \<and> \<not> aborted (step now s ev)"
proof (cases ev)
  case (FetchSettles sd oc)
  with assms resume_inv[OF assms(1,2), of now sd "Settles oc"] show ?thesis
    by (cases "unit_of sd s") simp_all
next
  case (TimerFires sd)
  with assms resume_inv[OF assms(1,2), of now sd Fires] show ?thesis
    by (cases "unit_of sd s") simp_all
next
  case CancelClick with assms show ?thesis by simp
qed

lemma run_snoc: "run (evs @ [(t, ev)]) s = step t (run evs s) ev"
  by (simp add: run_def)

lemma run_inv:
  assumes "session_inv s" "\<not> aborted s" "\<forall>(t, ev)\<in>set evs. ev \<noteq> CancelClick"
  shows "session_inv (run evs s) \<and> \<not> aborted (run evs s)"
  using assms(3)
proof (induction evs rule: rev_induct)
  case Nil with assms show ?case by (simp add: run_def)
next
  case (snoc x xs)
  obtain t ev where x: "x = (t, ev)" by (cases x)
  with snoc have "session_inv (run xs s) \<and> \<not> aborted (run xs s)" "ev \<noteq> CancelClick"
    by auto
  with step_inv[of "run xs s" ev t] show ?case by (simp add: x run_snoc)
qed


lemma waiting_run:
  assumes inv: "session_inv w" and aw: "awaiting w" and ab: "aborted w"
  shows "(if (\<exists>t sd. (t, TimerFires sd) \<in> set post \<and> is_Waiting (unit_of sd w))
          then (\<exists>t. after_cancel_done (cancelled_app t (app w)) (run post w))
          else run post w = w)"
proof (induction post rule: rev_induct)
  case Nil show ?case by (simp add: run_def)
next
  case (snoc x xs)
  obtain t ev where x: "x = (t, ev)" by (cases x)
  show ?case
  proof (cases "\<exists>t sd. (t, TimerFires sd) \<in> set xs \<and> is_Waiting (unit_of sd w)")
    case True
    with snoc obtain t' where "after_cancel_done (cancelled_app t' (app w)) (run xs w)" by auto
    then have "after_cancel_done (cancelled_app t' (app w)) (run (xs @ [x]) w)"
      by (simp add: x run_snoc done_step)
    with True show ?thesis by auto
  next
    case False
    with snoc have same: "run xs w = w" by simp
    show ?thesis
    proof (cases "\<exists>sd. ev = TimerFires sd \<and> is_Waiting (unit_of sd w)")
      case True
      with waiting_step[OF inv aw ab, of ev t]
      have "after_cancel_done (cancelled_app t (app w)) (run (xs @ [x]) w)"
        by (simp add: x run_snoc same)
      moreover from True have "\<exists>t sd. (t, TimerFires sd) \<in> set (xs @ [x]) \<and> is_Waiting (unit_of sd w)"
        by (auto simp: x)
      ultimately show ?thesis by auto
    next
      case nf: False
      with waiting_step[OF inv aw ab, of ev t] have "run (xs @ [x]) w = w"
        by (simp add: x run_snoc same)
      moreover from nf False have "\<not> (\<exists>t sd. (t, TimerFires sd) \<in> set (xs @ [x]) \<and> is_Waiting (unit_of sd w))"
        by (auto simp: x)
      ultimately show ?thesis by (simp only: if_False)
    qed
  qed
qed

lemma aborted_inv:
  assumes "session_inv s" "awaiting s" "\<not> is_Fetching (unitA s)" "\<not> is_Fetching (unitB s)"
  shows "session_inv (s\<lparr>aborted := True\<rparr>)"
  using assms by (simp add: session_inv_def)

text \<open>
  Claim C3. Let a session be started and run, with no cancel click, to a state where the
  function still awaits its two units, and let the operator click cancel there. From then on,
  as long as the function has not settled nothing is written or logged; once it has settled,
  exactly one entry has been added to the log, the warning that the operator terminated the
  session, each status that was syncing or retrying is idle, every other status and both proxy
  lists are as they were. It settles with the click when a fetch is in flight, and otherwise
  when the backoff timer of a running unit fires.
\<close>

theorem cancel_settles_session:
  assumes start: "handleSyncFromUrls now0 uA uB a = Inr s0"
    and pre: "\<forall>(t, ev)\<in>set pre. ev \<noteq> CancelClick"
    and pending: "awaiting (run pre s0)"
  shows "let s1 = run pre s0; s2 = run post (step now1 s1 CancelClick) in
           (awaiting s2 \<longrightarrow> app s2 = app s1)
         \<and> (\<not> awaiting s2 \<longrightarrow>
               (\<exists>t. logs (app s2)
                      = addLog t (js ''Synchronization sequence manually terminated by operator.'')
                          Warning (logs (app s1)))
             \<and> statusA (app s2)
                 = (if statusA (app s1) = syncing \<or> statusA (app s1) = retrying then idle
                    else statusA (app s1))
             \<and> statusB (app s2)
                 = (if statusB (app s1) = syncing \<or> statusB (app s1) = retrying then idle
                    else statusB (app s1))
             \<and> proxiesLeft (app s2) = proxiesLeft (app s1)
             \<and> proxiesRight (app s2) = proxiesRight (app s1))
         \<and> (\<not> awaiting s2 \<longleftrightarrow>
               is_Fetching (unitA s1) \<or> is_Fetching (unitB s1)
             \<or> (\<exists>t sd. (t, TimerFires sd) \<in> set post \<and> is_Waiting (unit_of sd s1)))"
proof -
  define s1 where "s1 = run pre s0"
  define s2 where "s2 = run post (step now1 s1 CancelClick)"
  from run_inv[OF start_inv(1,2)[OF start] pre]
  have inv: "session_inv s1" and nab: "\<not> aborted s1" by (simp_all add: s1_def)
  from pending have aw: "awaiting s1" by (simp add: s1_def)
  have done_facts: "\<not> awaiting s2 \<and> app s2 = cancelled_app t (app s1)"
    if "after_cancel_done (cancelled_app t (app s1)) s2" for t
    using that by (simp add: after_cancel_done_def)
  have main: "(awaiting s2 \<longrightarrow> app s2 = app s1)
         \<and> (\<not> awaiting s2 \<longrightarrow> (\<exists>t. app s2 = cancelled_app t (app s1)))
         \<and> (\<not> awaiting s2 \<longleftrightarrow>
               is_Fetching (unitA s1) \<or> is_Fetching (unitB s1)
             \<or> (\<exists>t sd. (t, TimerFires sd) \<in> set post \<and> is_Waiting (unit_of sd s1)))"
  proof (cases "is_Fetching (unitA s1) \<or> is_Fetching (unitB s1)")
    case True
    with cancel_step[OF inv aw nab, of now1]
    have "after_cancel_done (cancelled_app now1 (app s1)) (step now1 s1 CancelClick)" by simp
    then have "after_cancel_done (cancelled_app now1 (app s1)) s2"
      unfolding s2_def by (rule done_run)
    from done_facts[OF this] True show ?thesis by auto
  next
    case False
    define w where "w = s1\<lparr>aborted := True\<rparr>"
    from False cancel_step[OF inv aw nab, of now1] have sc: "step now1 s1 CancelClick = w"
      by (simp add: w_def)
    from False inv aw have winv: "session_inv w" unfolding w_def by (intro aborted_inv) simp_all
    have waw: "awaiting w" "aborted w" "app w = app s1" "\<And>sd. unit_of sd w = unit_of sd s1"
      using aw by (simp_all add: w_def unit_of_def split: side.splits)
    have s2w: "s2 = run post w" unfolding s2_def sc ..
    show ?thesis
    proof (cases "\<exists>t sd. (t, TimerFires sd) \<in> set post \<and> is_Waiting (unit_of sd s1)")
      case True
      with waiting_run[OF winv waw(1,2), of post]
      obtain t where "after_cancel_done (cancelled_app t (app s1)) s2"
        unfolding s2w waw by auto
      from done_facts[OF this] True show ?thesis by auto
    next
      case nt: False
      with waiting_run[OF winv waw(1,2), of post] have "s2 = w"
        unfolding s2w waw by simp
      with waw False nt show ?thesis by simp
    qed
  qed
  have expand: "(\<exists>t. app s2 = cancelled_app t (app s1)) \<Longrightarrow>
       (\<exists>t. logs (app s2)
              = addLog t (js ''Synchronization sequence manually terminated by operator.'')
                  Warning (logs (app s1)))
             \<and> statusA (app s2)
                 = (if statusA (app s1) = syncing \<or> statusA (app s1) = retrying then idle
                    else statusA (app s1))
             \<and> statusB (app s2)
                 = (if statusB (app s1) = syncing \<or> statusB (app s1) = retrying then idle
                    else statusB (app s1))
             \<and> proxiesLeft (app s2) = proxiesLeft (app s1)
             \<and> proxiesRight (app s2) = proxiesRight (app s1)"
    by (auto simp: cancelled_app_def reset_pending_def cancel_message_def)
  from main expand show ?thesis
    unfolding Let_def s1_def[symmetric] s2_def[symmetric] by blast
qed

lemma add_all_simps [simp]:
  "add_all [] l = l"
  "add_all (es @ es') l = add_all es' (add_all es l)"
  "add_all (e # es) l = add_all es (addLog (timestamp e) (message e) (ltype e) l)"
  by (simp_all add: add_all_def)

lemma side_a_progress_refl: "side_a_progress s s"
  unfolding side_a_progress_def
  by (auto intro: exI[of _ "[]"])

lemma side_a_progress_trans:
  assumes "side_a_progress s s'" "side_a_progress s' s''"
  shows "side_a_progress s s''"
proof -
  from assms obtain e1 e2 c1 c2 where
    l: "logs (app s') = add_all e1 (logs (app s))" "\<forall>e\<in>set e1. ltype e = Warning"
       "logs (app s'') = add_all e2 (logs (app s'))" "\<forall>e\<in>set e2. ltype e = Warning"
    and c: "calls s' = calls s @ c1" "\<forall>c\<in>set c1. fst c = SideA"
       "calls s'' = calls s' @ c2" "\<forall>c\<in>set c2. fst c = SideA"
    unfolding side_a_progress_def by blast
  have "logs (app s'') = add_all (e1 @ e2) (logs (app s))" "\<forall>e\<in>set (e1 @ e2). ltype e = Warning"
    using l by auto
  moreover have "calls s'' = calls s @ (c1 @ c2)" "\<forall>c\<in>set (c1 @ c2). fst c = SideA"
    using c by auto
  ultimately show ?thesis
    using assms unfolding side_a_progress_def by metis
qed

lemma A_fail_round:
  assumes u: "unitA s = Fetching n" "n < 3" "unitB s = Returned None"
    and f: "awaiting s" "\<not> aborted s" "fetch_fails oc"
  shows "side_a_progress s (run [(t, FetchSettles SideA oc), (t', TimerFires SideA)] s)
       \<and> unitA (run [(t, FetchSettles SideA oc), (t', TimerFires SideA)] s) = Fetching (Suc n)
       \<and> statusA (app (run [(t, FetchSettles SideA oc), (t', TimerFires SideA)] s)) = retrying"
proof -
  have r: "run [(t, FetchSettles SideA oc), (t', TimerFires SideA)] s
     = s\<lparr>app := (app s)\<lparr>logs := addLog t (failure_message SideA 3 n (caught oc)) Warning (logs (app s)),
                        statusA := retrying\<rparr>,
         unitA := Fetching (Suc n),
         calls := calls s @ [(SideA, CallWait (1500 * 2 ^ n)), (SideA, CallFetch (urlA s))]\<rparr>"
    using u f
    by (simp add: run_def unit_of_def url_of_def resume_def unit_resume_def on_fetch_fails_retry
        set_unit_def apply_effects_def coordinate_def loop_head_def)
  show ?thesis
    unfolding r side_a_progress_def
    apply simp
    apply (rule exI[of _ "[\<lparr>timestamp = t, message = failure_message SideA 3 n (caught oc), ltype = Warning\<rparr>]"])
    apply simp
    done
qed


lemma run_append: "run (xs @ ys) s = run ys (run xs s)"
  by (simp add: run_def)

lemma retry_events_Cons:
  "retry_events sd ((t, oc, t') # fails) = [(t, FetchSettles sd oc), (t', TimerFires sd)] @ retry_events sd fails"
  by (simp add: retry_events_def)

lemma A_fail_rounds:
  assumes "unitA s = Fetching n" "n + length fails \<le> 3" "unitB s = Returned None"
    and "awaiting s" "\<not> aborted s" "\<forall>(t, oc, t')\<in>set fails. fetch_fails oc"
  shows "side_a_progress s (run (retry_events SideA fails) s)
       \<and> unitA (run (retry_events SideA fails) s) = Fetching (n + length fails)
       \<and> statusA (app (run (retry_events SideA fails) s))
           = (if fails = [] then statusA (app s) else retrying)"
  using assms
proof (induction fails arbitrary: s n)
  case Nil
  then show ?case by (simp add: retry_events_def run_def side_a_progress_refl)
next
  case (Cons x fails)
  obtain t oc t' where x: "x = (t, oc, t')" by (cases x)
  define s' where "s' = run [(t, FetchSettles SideA oc), (t', TimerFires SideA)] s"
  from Cons.prems x have n: "n < 3" and f: "fetch_fails oc" by simp_all
  from A_fail_round[OF Cons.prems(1) n Cons.prems(3,4,5) f, of t t']
  have p: "side_a_progress s s'" and u: "unitA s' = Fetching (Suc n)"
    and st: "statusA (app s') = retrying"
    by (simp_all add: s'_def)
  from p Cons.prems have fr: "unitB s' = Returned None" "awaiting s'" "\<not> aborted s'"
    by (simp_all add: side_a_progress_def)
  from Cons.prems have rest: "Suc n + length fails \<le> 3" "\<forall>(t, oc, t')\<in>set fails. fetch_fails oc"
    by simp_all
  from Cons.IH[OF u rest(1) fr rest(2)]
  have ih: "side_a_progress s' (run (retry_events SideA fails) s')"
    "unitA (run (retry_events SideA fails) s') = Fetching (Suc n + length fails)"
    "statusA (app (run (retry_events SideA fails) s')) = (if fails = [] then statusA (app s') else retrying)"
    by simp_all
  have r: "run (retry_events SideA (x # fails)) s = run (retry_events SideA fails) s'"
    by (simp only: x retry_events_Cons run_append s'_def)
  from side_a_progress_trans[OF p ih(1)] ih(2,3) st show ?case
    by (simp add: r)
qed

lemma A_success:
  assumes "unitA s = Fetching n" "unitB s = Returned None" "awaiting s"
  shows "unitA (step tn s (FetchSettles SideA (Fulfilled content))) = Returned (Some content)"
    and "unitB (step tn s (FetchSettles SideA (Fulfilled content))) = Returned None"
    and "\<not> awaiting (step tn s (FetchSettles SideA (Fulfilled content)))"
    and "calls (step tn s (FetchSettles SideA (Fulfilled content))) = calls s"
    and "app (step tn s (FetchSettles SideA (Fulfilled content)))
          = aggregate tn 0 (Some content) ((app s)\<lparr>statusA := success\<rparr>)"
  using assms
  by (simp_all add: unit_of_def url_of_def resume_def unit_resume_def on_fetch_def set_unit_def
      apply_effects_def coordinate_def on_all_fulfilled_def finish_def aggregate_skips)


lemma aggregate_left:
  "statusA (aggregate tn 0 (Some content) a) = statusA a"
  "statusB (aggregate tn 0 (Some content) a) = statusB a"
  "proxiesRight (aggregate tn 0 (Some content) a) = proxiesRight a"
  "proxiesLeft (aggregate tn 0 (Some content) a)
     = (if content = [] then proxiesLeft a
        else join_nl (filter (regex_test PROXY_REGEX) (proxy_lines content)))"
  "\<exists>entries. logs (aggregate tn 0 (Some content) a) = add_all entries (logs a)
       \<and> (\<forall>e\<in>set entries. ltype e = Warning \<or> ltype e = Success)"
proof -
  show "statusA (aggregate tn 0 (Some content) a) = statusA a"
    "statusB (aggregate tn 0 (Some content) a) = statusB a"
    "proxiesRight (aggregate tn 0 (Some content) a) = proxiesRight a"
    "proxiesLeft (aggregate tn 0 (Some content) a)
     = (if content = [] then proxiesLeft a
        else join_nl (filter (regex_test PROXY_REGEX) (proxy_lines content)))"
    by (simp_all add: aggregate_def Let_def)
  show "\<exists>entries. logs (aggregate tn 0 (Some content) a) = add_all entries (logs a)
       \<and> (\<forall>e\<in>set entries. ltype e = Warning \<or> ltype e = Success)"
  proof (cases "content = []")
    case True
    then show ?thesis by (auto simp: aggregate_def intro: exI[of _ "[]"])
  next
    case False
    have "\<exists>m ty. logs (aggregate tn 0 (Some content) a) = addLog tn m ty (logs a)
            \<and> (ty = Warning \<or> ty = Success)"
    proof (cases "length (filter (regex_test PROXY_REGEX) (proxy_lines content)) = 0
                  \<and> length (proxy_lines content) > 0")
      case True
      with False have "logs (aggregate tn 0 (Some content) a)
          = addLog tn (js ''Cluster '' @ side_name SideA
              @ js '' fetch successful, but 0 valid proxy patterns found in ''
              @ show_nat (length (proxy_lines content)) @ js '' lines.'') Warning (logs a)"
        unfolding aggregate_def by (simp add: Let_def)
      then show ?thesis by blast
    next
      case nw: False
      with False have "logs (aggregate tn 0 (Some content) a)
          = addLog tn (js ''Cluster '' @ side_name SideA @ js '' synchronization complete. Loaded ''
              @ show_nat (length (filter (regex_test PROXY_REGEX) (proxy_lines content))) @ js ''/''
              @ show_nat (length (proxy_lines content)) @ js '' valid nodes.'') Success (logs a)"
        unfolding aggregate_def by (auto simp: Let_def)
      then show ?thesis by blast
    qed
    then obtain m ty where l: "logs (aggregate tn 0 (Some content) a) = addLog tn m ty (logs a)"
      and ty: "ty = Warning \<or> ty = Success" by blast
    show ?thesis
      by (rule exI[of _ "[\<lparr>timestamp = tn, message = m, ltype = ty\<rparr>]"]) (use l ty in simp)
  qed
qed

text \<open>
  Claim C7, as the code has it. With URL B empty, the unit of side B returns null at once and does nothing. When
  side A, with a non-empty URL, succeeds after at most three failed attempts, the session ends
  with A's status success and, when the fetched body is not empty, A's proxy list replaced by
  the valid fetched lines; an empty body leaves A's proxy list as it was. In both cases the
  session ends with B's status and proxy list as they were, with no error entry
  among the log entries added, and with no call made for side B.
\<close>

theorem only_side_A_synchronized:
  assumes idle: "\<not> isSyncing a" and url: "uA \<noteq> []"
    and budget: "length fails \<le> 3" and fails: "\<forall>(t, oc, t')\<in>set fails. fetch_fails oc"
  shows "fetchWithRetry_start [] 3 False = (Returned None, [])
       \<and> (\<exists>s0. handleSyncFromUrls now uA [] a = Inr s0 \<and>
            (let s = run (retry_events SideA fails @ [(tn, FetchSettles SideA (Fulfilled content))]) s0
             in \<not> awaiting s \<and> unitA s = Returned (Some content) \<and> unitB s = Returned None
              \<and> statusA (app s) = success \<and> statusB (app s) = statusB a
              \<and> proxiesRight (app s) = proxiesRight a
              \<and> proxiesLeft (app s)
                  = (if content = [] then proxiesLeft a
                     else join_nl (filter (regex_test PROXY_REGEX) (proxy_lines content)))
              \<and> (\<exists>entries. logs (app s) = add_all entries (logs a)
                     \<and> (\<forall>e\<in>set entries. ltype e \<noteq> Error))
              \<and> (\<forall>c\<in>set (calls s). fst c = SideA)))"
proof -
  define init where "init = \<lparr>timestamp = now,
     message = js ''Initiating Multi-Cluster Synchronize sequence...'', ltype = Info\<rparr>"
  define s0 where "s0 = \<lparr>app = a\<lparr>logs := add_all [init] (logs a), statusA := syncing\<rparr>,
     urlA = uA, urlB = [], unitA = Fetching 0, unitB = Returned None,
     aborted = False, controller = True, awaiting = True, calls = [(SideA, CallFetch uA)]\<rparr>"
  have start: "handleSyncFromUrls now uA [] a = Inr s0"
    using idle url
    by (simp add: handleSyncFromUrls_def fetchWithRetry_start_def loop_head_def apply_effects_def
        s0_def init_def)
  define s1 where "s1 = run (retry_events SideA fails) s0"
  define s where "s = run (retry_events SideA fails @ [(tn, FetchSettles SideA (Fulfilled content))]) s0"
  have s: "s = step tn s1 (FetchSettles SideA (Fulfilled content))"
    by (simp add: s_def s1_def run_append run_def)
  have "unitA s0 = Fetching 0" "0 + length fails \<le> 3" "unitB s0 = Returned None" "awaiting s0"
    "\<not> aborted s0"
    using budget by (simp_all add: s0_def)
  from A_fail_rounds[OF this fails]
  have p: "side_a_progress s0 s1" and u1: "unitA s1 = Fetching (0 + length fails)"
    by (simp_all add: s1_def)
  from p have fr: "unitB s1 = Returned None" "awaiting s1" "statusB (app s1) = statusB a"
    "proxiesLeft (app s1) = proxiesLeft a" "proxiesRight (app s1) = proxiesRight a"
    by (simp_all add: side_a_progress_def s0_def)
  from p obtain e1 c1 where l1: "logs (app s1) = add_all e1 (logs (app s0))"
    "\<forall>e\<in>set e1. ltype e = Warning"
    and c1: "calls s1 = calls s0 @ c1" "\<forall>c\<in>set c1. fst c = SideA"
    unfolding side_a_progress_def by blast
  note fin = A_success[OF u1 fr(1,2), of tn content, folded s]
  obtain e2 where l2: "logs (app s) = add_all e2 (logs (app s1))"
    "\<forall>e\<in>set e2. ltype e = Warning \<or> ltype e = Success"
    using aggregate_left(5)[of tn content "(app s1)\<lparr>statusA := success\<rparr>"] fin(5) by auto
  have logs: "logs (app s) = add_all ([init] @ e1 @ e2) (logs a)"
    using l1 l2 by (simp add: s0_def)
  have noerr: "\<forall>e\<in>set ([init] @ e1 @ e2). ltype e \<noteq> Error"
    using l1(2) l2(2) by (auto simp: init_def)
  have calls: "\<forall>c\<in>set (calls s). fst c = SideA"
    using fin(4) c1 by (auto simp: s0_def)
  have le: "\<exists>entries. logs (app s) = add_all entries (logs a) \<and> (\<forall>e\<in>set entries. ltype e \<noteq> Error)"
    using logs noerr by blast
  have body: "\<not> awaiting s \<and> unitA s = Returned (Some content) \<and> unitB s = Returned None
              \<and> statusA (app s) = success \<and> statusB (app s) = statusB a
              \<and> proxiesRight (app s) = proxiesRight a
              \<and> proxiesLeft (app s)
                  = (if content = [] then proxiesLeft a
                     else join_nl (filter (regex_test PROXY_REGEX) (proxy_lines content)))
              \<and> (\<exists>entries. logs (app s) = add_all entries (logs a)
                     \<and> (\<forall>e\<in>set entries. ltype e \<noteq> Error))
              \<and> (\<forall>c\<in>set (calls s). fst c = SideA)"
    using fin fr le calls by (simp add: aggregate_left)
  have first: "fetchWithRetry_start [] 3 False = (Returned None, [])"
    by (simp add: fetchWithRetry_start_def)
  show ?thesis
    apply (rule conjI[OF first])
    apply (rule exI[of _ s0])
    apply (rule conjI[OF start])
    unfolding Let_def s_def[symmetric]
    apply (rule body)
    done
qed

lemma start_example: "handleSyncFromUrls [] (js ''u'') [] idle_app = Inr started_session"
  by (simp add: handleSyncFromUrls_def isSyncing_def idle_app_def started_session_def
      fetchWithRetry_start_def loop_head_def apply_effects_def addLog_def slice_last_def js_def)

theorem cancel_settles_session_witness:
  "handleSyncFromUrls [] (js ''u'') [] idle_app = Inr started_session
   \<and> awaiting (run [] started_session)
   \<and> \<not> awaiting (run [] (step [] (run [] started_session) CancelClick))
   \<and> statusA (app (run [] (step [] (run [] started_session) CancelClick))) = idle
   \<and> map (\<lambda>e. (message e, ltype e))
         (logs (app (run [] (step [] (run [] started_session) CancelClick))))
     = [(js ''Initiating Multi-Cluster Synchronize sequence...'', Info),
        (js ''Synchronization sequence manually terminated by operator.'', Warning)]"
proof -
  have pre: "\<forall>(t, ev)\<in>set []. ev \<noteq> CancelClick" by simp
  have aw: "awaiting (run [] started_session)" by (simp add: run_def started_session_def)
  have f: "is_Fetching (unitA (run [] started_session))"
    "statusA (app (run [] started_session)) = syncing"
    by (simp_all add: run_def started_session_def)
  have l: "logs (app (run [] started_session))
      = [\<lparr>timestamp = [], message = js ''Initiating Multi-Cluster Synchronize sequence...'',
          ltype = Info\<rparr>]"
    by (simp add: run_def started_session_def)
  from cancel_settles_session[OF start_example pre aw, of "[]" "[]"] f aw start_example
  show ?thesis by (auto simp: Let_def l addLog_def slice_last_def)
qed

theorem only_side_A_synchronized_witness:
  "\<not> isSyncing idle_app \<and> js ''u'' \<noteq> [] \<and> length ([] :: (jsstring \<times> fetch_outcome \<times> jsstring) list) \<le> 3
   \<and> (\<exists>s0. handleSyncFromUrls [] (js ''u'') [] idle_app = Inr s0
        \<and> statusA (app (run [([], FetchSettles SideA (Fulfilled (js ''1.2.3.4:80'')))] s0)) = success
        \<and> proxiesLeft (app (run [([], FetchSettles SideA (Fulfilled (js ''1.2.3.4:80'')))] s0))
            = js ''1.2.3.4:80''
        \<and> statusB (app (run [([], FetchSettles SideA (Fulfilled (js ''1.2.3.4:80'')))] s0)) = idle
        \<and> proxiesRight (app (run [([], FetchSettles SideA (Fulfilled (js ''1.2.3.4:80'')))] s0)) = [])"
proof -
  have i: "\<not> isSyncing idle_app" by (simp add: isSyncing_def idle_app_def)
  have u: "js ''u'' \<noteq> []" by (simp add: js_def)
  have b: "length ([] :: (jsstring \<times> fetch_outcome \<times> jsstring) list) \<le> 3" by simp
  have f: "\<forall>(t, oc, t')\<in>set ([] :: (jsstring \<times> fetch_outcome \<times> jsstring) list). fetch_fails oc" by simp
  have ne: "js ''1.2.3.4:80'' \<noteq> []" by (simp add: js_def)
  have pl: "proxy_lines (js ''1.2.3.4:80'') = [js ''1.2.3.4:80'']"
    by (simp add: proxy_lines_def trim_def is_ws_def js_def ch_def)
  have v: "regex_test PROXY_REGEX (js ''1.2.3.4:80'')"
    by (simp add: js_def ch_def regex_test_def PROXY_REGEX_def OCTET_def PORT_def times_unfold)
  from only_side_A_synchronized[OF i u b f, of "[]" "[]" "js ''1.2.3.4:80''"]
  obtain s0 where "handleSyncFromUrls [] (js ''u'') [] idle_app = Inr s0"
    "statusA (app (run [([], FetchSettles SideA (Fulfilled (js ''1.2.3.4:80'')))] s0)) = success"
    "proxiesLeft (app (run [([], FetchSettles SideA (Fulfilled (js ''1.2.3.4:80'')))] s0))
       = join_nl (filter (regex_test PROXY_REGEX) (proxy_lines (js ''1.2.3.4:80'')))"
    "statusB (app (run [([], FetchSettles SideA (Fulfilled (js ''1.2.3.4:80'')))] s0)) = statusB idle_app"
    "proxiesRight (app (run [([], FetchSettles SideA (Fulfilled (js ''1.2.3.4:80'')))] s0)) = proxiesRight idle_app"
    using ne by (auto simp: Let_def retry_events_def)
  with i u show ?thesis by (auto simp: idle_app_def pl v)
qed

text \<open>
  An ok response with an empty body, within the conditions of claim C7 as it is worded: side A
  ends in success, and its proxy list is the one it had before, not the valid lines of the
  fetched text (there are none).
\<close>

theorem empty_body_keeps_proxiesLeft_counterexample:
  "(case handleSyncFromUrls [] (js ''u'') []
           \<lparr>statusA = idle, statusB = idle, proxiesLeft = js ''1.1.1.1:80'', proxiesRight = [],
            logs = []\<rparr> of
      Inl a \<Rightarrow> False
    | Inr s0 \<Rightarrow>
        \<not> awaiting (run [([], FetchSettles SideA (Fulfilled []))] s0)
      \<and> unitA (run [([], FetchSettles SideA (Fulfilled []))] s0) = Returned (Some [])
      \<and> statusA (app (run [([], FetchSettles SideA (Fulfilled []))] s0)) = success
      \<and> proxiesLeft (app (run [([], FetchSettles SideA (Fulfilled []))] s0)) = js ''1.1.1.1:80''
      \<and> proxiesLeft (app (run [([], FetchSettles SideA (Fulfilled []))] s0))
          \<noteq> join_nl (filter (\<lambda>l. regex_test PROXY_REGEX l) (proxy_lines [])))"
  by (simp add: handleSyncFromUrls_def isSyncing_def fetchWithRetry_start_def loop_head_def
      apply_effects_def run_def resume_def unit_of_def url_of_def unit_resume_def
      on_fetch_def set_unit_def coordinate_def on_all_fulfilled_def finish_def aggregate_skips
      proxy_lines_def trim_def js_def)

section \<open>Metrics Simulator\<close>

lemma round_even_range: "\<lfloor>x\<rfloor> \<le> round_even x" "round_even x \<le> \<lfloor>x\<rfloor> + 1"
  by (simp_all add: round_even_def Let_def)

lemma round_even_of_int [simp]: "round_even (of_int n) = n"
  by (simp add: round_even_def)

lemma round_even_mono:
  assumes "x \<le> y" shows "round_even x \<le> round_even y"
proof (cases "\<lfloor>x\<rfloor> = \<lfloor>y\<rfloor>")
  case True
  with assms have "x - of_int \<lfloor>x\<rfloor> \<le> y - of_int \<lfloor>y\<rfloor>" by simp
  then show ?thesis
    unfolding round_even_def Let_def True by auto
next
  case False
  with assms have "\<lfloor>x\<rfloor> < \<lfloor>y\<rfloor>" using floor_mono[OF assms] by linarith
  then have "\<lfloor>x\<rfloor> + 1 \<le> \<lfloor>y\<rfloor>" by simp
  with round_even_range(2)[of x] round_even_range(1)[of y] show ?thesis by linarith
qed

lemma round_even_le: "x \<le> of_int n \<Longrightarrow> round_even x \<le> n"
  using round_even_mono[of x "of_int n"] by simp

lemma round_even_ge: "of_int n \<le> x \<Longrightarrow> n \<le> round_even x"
  using round_even_mono[of "of_int n" x] by simp

lemma two_powi_pos [simp]: "0 < (2::real) powi e"
  by (simp add: power_int_def)

lemma powr_powi: "(2::real) powr (of_int e) = 2 powi e" "(2::real) powr (of_int e + 1) = 2 powi (e + 1)"
proof -
  show a: "(2::real) powr (of_int e) = 2 powi e" for e
    by (simp add: powr_real_of_int')
  from a[of "e + 1"] show "(2::real) powr (of_int e + 1) = 2 powi (e + 1)" by simp
qed

lemma binade_mono:
  assumes "0 < x" "x \<le> y" shows "binade x \<le> binade y"
proof -
  from assms have "log 2 x \<le> log 2 y" by simp
  then have "\<lfloor>log 2 x\<rfloor> \<le> \<lfloor>log 2 y\<rfloor>" by (rule floor_mono)
  with assms show ?thesis by (simp add: binade_def)
qed

lemma binade_eq:
  assumes "0 < x" "2 powi e \<le> x" "x < 2 powi (e + 1)" "-1022 \<le> e"
  shows "binade x = e"
proof -
  have "\<lfloor>log 2 x\<rfloor> = e"
    using assms by (simp add: floor_log_eq_powr_iff powr_powi)
  with assms show ?thesis by (simp add: binade_def)
qed

lemma binade_upper:
  assumes "0 < x" shows "x < 2 powi (binade x + 1)"
proof -
  have "\<lfloor>log 2 x\<rfloor> \<le> binade x" using assms by (simp add: binade_def)
  then have "log 2 x < of_int (binade x + 1)" by linarith
  then have "x < 2 powr (of_int (binade x + 1))"
    using assms by (simp only: log_less_iff)
  then show ?thesis by (simp only: powr_powi(1))
qed

lemma binade_lower:
  assumes "0 < x" "- 1022 < binade x" shows "2 powi (binade x) \<le> x"
proof -
  from assms have "binade x = \<lfloor>log 2 x\<rfloor>" by (simp add: binade_def max_def split: if_splits)
  then have "of_int (binade x) \<le> log 2 x" by simp
  then have "2 powr (of_int (binade x)) \<le> x"
    using assms by (simp add: le_log_iff)
  then show ?thesis by (simp only: powr_powi(1))
qed


lemma round_even_0 [simp]: "round_even 0 = 0"
  using round_even_of_int[of 0] by simp

lemma to_double_0 [simp]: "to_double 0 = 0"
  by (simp add: to_double_def)

lemma to_double_nonneg: "0 \<le> x \<Longrightarrow> 0 \<le> to_double x"
proof -
  assume "0 \<le> x"
  then have "of_int 0 \<le> x / 2 powi (binade x - 52)" by simp
  then have "0 \<le> round_even (x / 2 powi (binade x - 52))" by (rule round_even_ge)
  then show ?thesis by (simp add: to_double_def)
qed

lemma powi_split: "(2::real) powi (e + 1) = 2 ^ 53 * 2 powi (e - 52)" "(2::real) powi e = 2 ^ 52 * 2 powi (e - 52)"
proof -
  have "e + 1 = 53 + (e - 52)" by simp
  then have "(2::real) powi (e + 1) = 2 powi (53 + (e - 52))" by (rule arg_cong)
  also have "\<dots> = 2 powi 53 * 2 powi (e - 52)" by (rule power_int_add) simp
  finally show "(2::real) powi (e + 1) = 2 ^ 53 * 2 powi (e - 52)" by simp
  have "e = 52 + (e - 52)" by simp
  then have "(2::real) powi e = 2 powi (52 + (e - 52))" by (rule arg_cong)
  also have "\<dots> = 2 powi 52 * 2 powi (e - 52)" by (rule power_int_add) simp
  finally show "(2::real) powi e = 2 ^ 52 * 2 powi (e - 52)" by simp
qed

lemma to_double_le_binade_top:
  assumes "0 < x" shows "to_double x \<le> 2 powi (binade x + 1)"
proof -
  define g where "g = (2::real) powi (binade x - 52)"
  have g: "0 < g" by (simp add: g_def)
  from binade_upper[OF assms] have "x < 2 ^ 53 * g" by (simp add: powi_split(1) g_def)
  then have "x / g \<le> of_int (2 ^ 53)" using g by (simp add: field_simps)
  then have "round_even (x / g) \<le> 2 ^ 53" by (rule round_even_le)
  then have "of_int (round_even (x / g)) \<le> (2 ^ 53 :: real)" 
    by (metis of_int_le_iff of_int_numeral of_int_power)
  then have "of_int (round_even (x / g)) * g \<le> 2 ^ 53 * g" using g by simp
  then show ?thesis by (simp add: to_double_def powi_split(1) g_def)
qed

lemma to_double_ge_binade_bottom:
  assumes "0 < x" "- 1022 < binade x" shows "2 powi (binade x) \<le> to_double x"
proof -
  define g where "g = (2::real) powi (binade x - 52)"
  have g: "0 < g" by (simp add: g_def)
  from binade_lower[OF assms] have "2 ^ 52 * g \<le> x" using powi_split(2)[of "binade x"] by (simp add: g_def)
  then have "of_int (2 ^ 52) \<le> x / g" using g by (simp add: field_simps)
  then have "2 ^ 52 \<le> round_even (x / g)" by (rule round_even_ge)
  then have "(2 ^ 52 :: real) \<le> of_int (round_even (x / g))"
    by (metis of_int_le_iff of_int_numeral of_int_power)
  then have "2 ^ 52 * g \<le> of_int (round_even (x / g)) * g" using g by simp
  then show ?thesis using powi_split(2)[of "binade x"] by (simp add: to_double_def g_def)
qed

lemma to_double_mono:
  assumes "0 \<le> x" "x \<le> y" shows "to_double x \<le> to_double y"
proof (cases "x = 0")
  case True
  with assms show ?thesis by (simp add: to_double_nonneg)
next
  case False
  with assms have pos: "0 < x" "0 < y" by simp_all
  from binade_mono[OF pos(1) assms(2)] have le: "binade x \<le> binade y" .
  show ?thesis
  proof (cases "binade x = binade y")
    case True
    define g where "g = (2::real) powi (binade y - 52)"
    have g: "0 < g" by (simp add: g_def)
    from assms g have "x / g \<le> y / g" by (simp add: divide_right_mono)
    then have "round_even (x / g) \<le> round_even (y / g)" by (rule round_even_mono)
    then have "of_int (round_even (x / g)) * g \<le> of_int (round_even (y / g)) * g"
      using g by simp
    then show ?thesis by (simp add: to_double_def True g_def)
  next
    case False
    with le have lt: "binade x + 1 \<le> binade y" by simp
    have "- 1022 \<le> binade x" by (simp add: binade_def)
    with lt have low: "- 1022 < binade y" by simp
    have "to_double x \<le> 2 powi (binade x + 1)" by (rule to_double_le_binade_top[OF pos(1)])
    also have "\<dots> \<le> 2 powi (binade y)" using lt by (simp add: power_int_increasing)
    also have "\<dots> \<le> to_double y" by (rule to_double_ge_binade_bottom[OF pos(2) low])
    finally show ?thesis .
  qed
qed

text \<open>A number with a 53-bit mantissa and an exponent in range is a double: rounding leaves it.\<close>

lemma to_double_exact:
  assumes "2 ^ 52 \<le> k" "k < 2 ^ 53" "- 1022 \<le> e" "x = of_int k * 2 powi (e - 52)"
  shows "to_double x = x"
proof -
  define g where "g = (2::real) powi (e - 52)"
  have g: "0 < g" by (simp add: g_def)
  from assms(1) have k1: "(2 ^ 52 :: real) \<le> of_int k"
    by (metis of_int_le_iff of_int_numeral of_int_power)
  from assms(2) have k2: "of_int k < (2 ^ 53 :: real)"
    by (metis of_int_less_iff of_int_numeral of_int_power)
  have x: "x = of_int k * g" by (simp add: assms g_def)
  have "0 < x" using k1 g by (simp add: x)
  moreover have "2 powi e \<le> x" using k1 g by (simp add: powi_split(2)[of e] x g_def)
  moreover have "x < 2 powi (e + 1)" using k2 g by (simp add: powi_split(1)[of e] x g_def)
  ultimately have b: "binade x = e" using assms(3) by (intro binade_eq)
  have "x / 2 powi (binade x - 52) = of_int k" unfolding b using g by (simp add: x g_def)
  then show ?thesis unfolding to_double_def b by (simp add: x g_def)
qed

lemma to_double_eval:
  assumes "0 < x" "2 powi e \<le> x" "x < 2 powi (e + 1)" "-1022 \<le> e"
  shows "to_double x = of_int (round_even (x / 2 powi (e - 52))) * 2 powi (e - 52)"
  unfolding to_double_def binade_eq[OF assms] ..

lemma double_033: "to_double (33/100) = 5944751508129055 / 2 ^ 54"
  by (subst to_double_eval[where e = "-2"]) (simp_all add: round_even_def Let_def)

lemma double_04: "to_double (4/10) = 7205759403792794 / 2 ^ 54"
  by (subst to_double_eval[where e = "-2"]) (simp_all add: round_even_def Let_def)

lemma double_08: "to_double (8/10) = 7205759403792794 / 2 ^ 53"
  by (subst to_double_eval[where e = "-1"]) (simp_all add: round_even_def Let_def)

lemma double_33000: "to_double (100000 * (5944751508129055 / 2 ^ 54)) = 33000"
  by (subst to_double_eval[where e = "15"]) (simp_all add: round_even_def Let_def)

lemma to_double_int:
  assumes "0 \<le> n" "n < 2 ^ 53" shows "to_double (of_int n) = of_int n"
proof (cases "n = 0")
  case True then show ?thesis by simp
next
  case False
  with assms have pos: "0 < (of_int n :: real)" by simp
  define e where "e = binade (of_int n)"
  have up: "of_int n < (2::real) powi (e + 1)" unfolding e_def by (rule binade_upper[OF pos])
  have e0: "0 \<le> e"
  proof (rule ccontr)
    assume "\<not> 0 \<le> e"
    then have "e + 1 \<le> 0" by simp
    then have "(2::real) powi (e + 1) \<le> 2 powi 0" by (intro power_int_increasing) simp_all
    with up have "of_int n < (1::real)" by simp
    then have "n < 1" by simp
    with assms False show False by simp
  qed
  then have low: "(2::real) powi e \<le> of_int n"
    unfolding e_def by (intro binade_lower[OF pos]) simp
  have e52: "e \<le> 52"
  proof (rule ccontr)
    assume "\<not> e \<le> 52"
    then have "53 \<le> e" by simp
    then have "(2::real) powi 53 \<le> 2 powi e" by (intro power_int_increasing) simp_all
    with low have "(2::real) ^ 53 \<le> of_int n" by simp
    moreover from assms(2) have "of_int n < (2 ^ 53 :: real)"
      by (metis of_int_less_iff of_int_numeral of_int_power)
    ultimately show False by simp
  qed
  have g: "(2::real) powi (e - 52) = 1 / 2 ^ nat (52 - e)"
  proof -
    have "e - 52 = - (52 - e)" by simp
    then have "(2::real) powi (e - 52) = 2 powi (- (52 - e))" by (rule arg_cong)
    also have "\<dots> = inverse (2 powi (52 - e))" by (rule power_int_minus)
    also have "(2::real) powi (52 - e) = 2 ^ nat (52 - e)"
      using e52 by (intro power_int_nonneg_exp) simp
    finally show ?thesis by (simp add: inverse_eq_divide)
  qed
  have "of_int n / (2::real) powi (e - 52) = of_int (n * 2 ^ nat (52 - e))"
    by (simp add: g)
  then have "round_even (of_int n / 2 powi (e - 52)) = n * 2 ^ nat (52 - e)"
    by (simp only: round_even_of_int)
  then show ?thesis
    unfolding to_double_def e_def[symmetric] by (simp add: g)
qed

lemma double_consts:
  "to_double (7205759403792794 / 2 ^ 54) = 7205759403792794 / 2 ^ 54"
  "to_double (7205759403792794 / 2 ^ 53) = 7205759403792794 / 2 ^ 53"
  "to_double (5404319552844596 / 2 ^ 52) = 5404319552844596 / 2 ^ 52"
  "to_double (79201 / 2) = 79201 / 2"
proof -
  show "to_double (7205759403792794 / 2 ^ 54) = 7205759403792794 / 2 ^ 54"
    by (rule to_double_exact[where k = 7205759403792794 and e = "-2"]) simp_all
  show "to_double (7205759403792794 / 2 ^ 53) = 7205759403792794 / 2 ^ 53"
    by (rule to_double_exact[where k = 7205759403792794 and e = "-1"]) simp_all
  show "to_double (5404319552844596 / 2 ^ 52) = 5404319552844596 / 2 ^ 52"
    by (rule to_double_exact[where k = 5404319552844596 and e = 0]) simp_all
  show "to_double (79201 / 2) = 79201 / 2"
    by (rule to_double_exact[where k = 5442651276967936 and e = 15]) simp_all
qed

lemma double_ints: "to_double 26400 = 26400" "to_double 100000 = 100000"
  using to_double_int[of 26400] to_double_int[of 100000] by simp_all

lemma near_one:
  "to_double ((1 - 1 / 2 ^ 53) * (7205759403792794 / 2 ^ 54)) = 7205759403792793 / 2 ^ 54"
  "to_double (7205759403792793 / 2 ^ 54 + 7205759403792794 / 2 ^ 53) = 5404319552844595 / 2 ^ 52"
  "to_double (33000 * (5404319552844595 / 2 ^ 52)) = 39600"
proof -
  show "to_double ((1 - 1 / 2 ^ 53) * (7205759403792794 / 2 ^ 54)) = 7205759403792793 / 2 ^ 54"
    by (subst to_double_eval[where e = "-2"]) (simp_all add: round_even_def Let_def)
  show "to_double (7205759403792793 / 2 ^ 54 + 7205759403792794 / 2 ^ 53) = 5404319552844595 / 2 ^ 52"
    by (subst to_double_eval[where e = "0"]) (simp_all add: round_even_def Let_def)
  show "to_double (33000 * (5404319552844595 / 2 ^ 52)) = 39600"
    by (subst to_double_eval[where e = "15"]) (simp_all add: round_even_def Let_def)
qed

text \<open>
  Claim C9. With target count 100000 and velocity 33, a tick whose \<open>Math.random()\<close> lies in
  \<open>[0, 1)\<close> takes the total from 100000 to 100000 plus the increment; in double arithmetic
  \<open>100000 * (33 / 100)\<close> is exactly 33000, so the increment is the floor of the double product
  of 33000 and the random factor; that factor is at least 0.8, and below 1.2 for every double
  \<open>random\<close> below one; the new total lies between 126400 and 139600.
\<close>

theorem tick_range:
  assumes "0 \<le> random" "random < 1"
  shows "tick_views 100000 33 random 100000 = 100000 + tick_delta 100000 33 random
       \<and> tick_delta 100000 33 random
           = of_int \<lfloor>js_mul 33000 (js_add (js_mul random (to_double (4/10))) (to_double (8/10)))\<rfloor>
       \<and> 8/10 \<le> js_add (js_mul random (to_double (4/10))) (to_double (8/10))
       \<and> (random \<le> 1 - 1 / 2 ^ 53 \<longrightarrow>
             js_add (js_mul random (to_double (4/10))) (to_double (8/10)) < 12/10)
       \<and> 126400 \<le> tick_views 100000 33 random 100000
       \<and> tick_views 100000 33 random 100000 \<le> 139600"
proof -
  define c04 :: real where "c04 = 7205759403792794 / 2 ^ 54"
  define c08 :: real where "c08 = 7205759403792794 / 2 ^ 53"
  define R :: real where "R = 5404319552844596 / 2 ^ 52"
  define m where "m = to_double (random * c04)"
  define r where "r = to_double (m + c08)"
  define q where "q = to_double (33000 * r)"
  have ex: "to_double c04 = c04" "to_double c08 = c08" "to_double R = R"
    unfolding c04_def c08_def R_def by (rule double_consts)+
  have m0: "0 \<le> m" unfolding m_def using assms by (intro to_double_nonneg) (simp add: c04_def)
  have "m \<le> to_double c04"
    unfolding m_def using assms by (intro to_double_mono) (simp_all add: c04_def)
  then have m1: "m \<le> c04" by (simp only: ex)
  have "to_double c08 \<le> r"
    unfolding r_def using m0 by (intro to_double_mono) (simp_all add: c08_def)
  then have r0: "c08 \<le> r" by (simp only: ex)
  have "r \<le> to_double R"
    unfolding r_def using m0 m1 by (intro to_double_mono) (simp_all add: c04_def c08_def R_def)
  then have r1: "r \<le> R" by (simp only: ex)
  have "to_double 26400 \<le> q"
    unfolding q_def using r0 by (intro to_double_mono) (simp_all add: c08_def)
  then have q0: "26400 \<le> q" by (simp only: double_ints)
  have "q \<le> to_double (79201 / 2)"
    unfolding q_def using r0 r1 by (intro to_double_mono) (simp_all add: c08_def R_def)
  then have q1: "q \<le> 79201 / 2" by (simp only: double_consts)
  from q0 have f0: "26400 \<le> \<lfloor>q\<rfloor>" by linarith
  from q1 have f1: "\<lfloor>q\<rfloor> \<le> 39600" by linarith
  have d: "tick_delta 100000 33 random = of_int \<lfloor>q\<rfloor>"
    unfolding tick_delta_def js_mul_def js_add_def js_div_def double_033 double_04 double_08
      double_33000 q_def r_def m_def c04_def c08_def ..
  have "tick_views 100000 33 random 100000 = to_double (of_int (100000 + \<lfloor>q\<rfloor>))"
    unfolding tick_views_def js_add_def d by simp
  also have "\<dots> = of_int (100000 + \<lfloor>q\<rfloor>)"
    using f0 f1 by (intro to_double_int) simp_all
  finally have v: "tick_views 100000 33 random 100000 = 100000 + of_int \<lfloor>q\<rfloor>" by simp
  have r': "js_add (js_mul random (to_double (4/10))) (to_double (8/10)) = r"
    unfolding js_mul_def js_add_def double_04 double_08 r_def m_def c04_def c08_def ..
  have q': "js_mul 33000 r = q" unfolding js_mul_def q_def ..
  from r0 have r8: "8/10 \<le> r" by (simp add: c08_def)
  have r12: "r < 12/10" if "random \<le> 1 - 1 / 2 ^ 53"
  proof -
    have "m \<le> to_double ((1 - 1 / 2 ^ 53) * (7205759403792794 / 2 ^ 54))"
      unfolding m_def c04_def using assms that by (intro to_double_mono) simp_all
    then have m2: "m \<le> 7205759403792793 / 2 ^ 54" by (simp only: near_one)
    have "r \<le> to_double (7205759403792793 / 2 ^ 54 + 7205759403792794 / 2 ^ 53)"
      unfolding r_def c08_def using m0 m2 by (intro to_double_mono) simp_all
    then have "r \<le> 5404319552844595 / 2 ^ 52" by (simp only: near_one)
    then show ?thesis by simp
  qed
  from f0 f1 have b: "(126400::real) \<le> 100000 + of_int \<lfloor>q\<rfloor>" "100000 + of_int \<lfloor>q\<rfloor> \<le> (139600::real)"
    by linarith+
  show ?thesis
    unfolding r' q' using v d r8 r12 b by simp
qed

theorem tick_range_witness:
  "(0::real) \<le> 1/2 \<and> (1/2::real) < 1
   \<and> 126400 \<le> tick_views 100000 33 (1/2) 100000 \<and> tick_views 100000 33 (1/2) 100000 \<le> 139600"
proof -
  have a: "(0::real) \<le> 1/2" "(1/2::real) < 1" by simp_all
  from tick_range[OF a] a show ?thesis by blast
qed

text \<open>
  The upper end 139600 is reached, by rounding: for the largest double below one the product
  rounds up to 39600, where the exact value of the same expression has floor 39599.
\<close>

lemma tick_upper_bound_attained:
  "tick_views 100000 33 (1 - 1 / 2 ^ 53) 100000 = 139600"
proof -
  have "tick_delta 100000 33 (1 - 1 / 2 ^ 53) = of_int \<lfloor>39600 :: real\<rfloor>"
    unfolding tick_delta_def js_mul_def js_add_def js_div_def double_033 double_04 double_08
      double_33000 near_one ..
  then have d: "tick_delta 100000 33 (1 - 1 / 2 ^ 53) = 39600" by simp
  show ?thesis
    unfolding tick_views_def js_add_def d using to_double_int[of 139600] by simp
qed

lemma exact_formula_below_bound:
  "\<lfloor>100000 * (33 / 100) * ((1 - 1 / 2 ^ 53) * (4 / 10) + 8 / 10 :: real)\<rfloor> = 39599"
  by simp

end
